theory Spec2Isabelle
  imports Complex_Main
begin

section \<open>Text\<close>

text \<open>
  A Python \<open>str\<close> is a sequence of Unicode code points. Isabelle's \<open>char\<close> is a byte,
  so a text is modelled as the list of its code points; \<open>ustr\<close> turns an ASCII literal
  into such a list.
\<close>

type_synonym pystr = "nat list"

definition ustr :: "string \<Rightarrow> pystr" where
  "ustr s = map of_char s"

definition newline :: nat where
  "newline = 10"

text \<open>
  \<open>str.isspace\<close> of one code point: the characters that \<open>str.strip()\<close> without
  an argument removes.
\<close>

definition isspace :: "nat \<Rightarrow> bool" where
  "isspace c \<longleftrightarrow>
     (9 \<le> c \<and> c \<le> 13) \<or> (28 \<le> c \<and> c \<le> 32) \<or> c = 133 \<or> c = 160 \<or> c = 5760 \<or>
     (8192 \<le> c \<and> c \<le> 8202) \<or> c = 8232 \<or> c = 8233 \<or> c = 8239 \<or> c = 8287 \<or> c = 12288"

definition strip :: "pystr \<Rightarrow> pystr" where
  "strip s = rev (dropWhile isspace (rev (dropWhile isspace s)))"

text \<open>\<open>a or b\<close> on two texts: the first one unless it is empty.\<close>

definition or_else :: "pystr \<Rightarrow> pystr \<Rightarrow> pystr" where
  "or_else a b = (if a = [] then b else a)"

subsection \<open>Integers as text\<close>

fun digits :: "nat \<Rightarrow> pystr" where
  "digits n = (if n < 10 then [48 + n] else digits (n div 10) @ [48 + n mod 10])"

declare digits.simps [simp del]

text \<open>\<open>str(i)\<close> of an integer.\<close>

definition str_int :: "int \<Rightarrow> pystr" where
  "str_int i = (if i < 0 then 45 # digits (nat (- i)) else digits (nat i))"

definition zfill :: "nat \<Rightarrow> pystr \<Rightarrow> pystr" where
  "zfill w s = replicate (w - length s) 48 @ s"

text \<open>The format specification \<open>{i:04}\<close>: sign first, then zeros up to a width of four.\<close>

definition fmt_04 :: "int \<Rightarrow> pystr" where
  "fmt_04 i = (if i < 0 then 45 # zfill 3 (digits (nat (- i))) else zfill 4 (digits (nat i)))"

section \<open>Exceptions\<close>

text \<open>An exception that nothing in the program catches, kept as the name of its class.\<close>

type_synonym exc = pystr

section \<open>Floats\<close>

text \<open>
  A Python float is an IEEE 754 binary64 number: \<open>Float s m e\<close> is \<open>(-1)\<^sup>s \<times> m \<times> 2\<^sup>e\<close>,
  and there are the two infinities and NaN. The clock readings, the interval and the
  timeout are floats.
\<close>

datatype float64 = Float bool nat int | FInf bool | FNaN

text \<open>The number of binary digits of a natural number.\<close>

fun bitlen :: "nat \<Rightarrow> nat" where
  "bitlen n = (if n = 0 then 0 else Suc (bitlen (n div 2)))"

declare bitlen.simps [simp del]

text \<open>Division rounded to the nearest integer, a tie going to the even one.\<close>

definition rne_div :: "nat \<Rightarrow> nat \<Rightarrow> nat" where
  "rne_div n d =
     (let q = n div d; r = n mod d
      in if 2 * r > d \<or> (2 * r = d \<and> odd q) then q + 1 else q)"

text \<open>
  The binary64 number nearest to \<open>(-1)\<^sup>s \<times> m \<times> 2\<^sup>e\<close>: at most 53 binary digits, no
  exponent below \<open>-1074\<close>, and an infinity from \<open>2\<^sup>1\<^sup>0\<^sup>2\<^sup>4\<close> on.
\<close>

definition round64 :: "bool \<Rightarrow> nat \<Rightarrow> int \<Rightarrow> float64" where
  "round64 s m e =
     (let k = max (int (bitlen m) - 53) (- 1074 - e);
          m' = (if k \<le> 0 then m else rne_div m (2 ^ nat k));
          e' = (if k \<le> 0 then e else e + k)
      in if int (bitlen m') + e' > 1024 then FInf s else Float s m' e')"

definition signed :: "bool \<Rightarrow> nat \<Rightarrow> int" where
  "signed s m = (if s then - int m else int m)"

text \<open>\<open>a - b\<close> on floats.\<close>

fun fsub :: "float64 \<Rightarrow> float64 \<Rightarrow> float64" where
  "fsub FNaN b = FNaN"
| "fsub a FNaN = FNaN"
| "fsub (FInf s) (FInf t) = (if s = t then FNaN else FInf s)"
| "fsub (FInf s) (Float t n f) = FInf s"
| "fsub (Float s m e) (FInf t) = FInf (\<not> t)"
| "fsub (Float s m e) (Float t n f) =
     (let g = min e f;
          x = signed s m * 2 ^ nat (e - g) - signed t n * 2 ^ nat (f - g)
      in if x = 0 then Float (m = 0 \<and> n = 0 \<and> s \<and> \<not> t) 0 g
         else round64 (x < 0) (nat \<bar>x\<bar>) g)"

text \<open>\<open>a * b\<close> on floats.\<close>

fun fmul :: "float64 \<Rightarrow> float64 \<Rightarrow> float64" where
  "fmul FNaN b = FNaN"
| "fmul a FNaN = FNaN"
| "fmul (FInf s) (FInf t) = FInf (s \<noteq> t)"
| "fmul (FInf s) (Float t n f) = (if n = 0 then FNaN else FInf (s \<noteq> t))"
| "fmul (Float s m e) (FInf t) = (if m = 0 then FNaN else FInf (s \<noteq> t))"
| "fmul (Float s m e) (Float t n f) = round64 (s \<noteq> t) (m * n) (e + f)"

text \<open>An integer operand of a float operation, as \<open>1000\<close> in \<open>x * 1000\<close>.\<close>

definition float_of_nat :: "nat \<Rightarrow> float64" where
  "float_of_nat n = round64 False n 0"

text \<open>\<open>x > 0\<close> on a float.\<close>

fun fpos :: "float64 \<Rightarrow> bool" where
  "fpos (Float s m e) = (\<not> s \<and> 0 < m)"
| "fpos (FInf s) = (\<not> s)"
| "fpos FNaN = False"

text \<open>
  The format specification \<open>{x:.1f}\<close>: the exact value rounded to one decimal, a tie going
  to the even digit.
\<close>

definition tenths :: "nat \<Rightarrow> int \<Rightarrow> nat" where
  "tenths m e = (if 0 \<le> e then m * 2 ^ nat e * 10 else rne_div (m * 10) (2 ^ nat (- e)))"

fun fmt_1f :: "float64 \<Rightarrow> pystr" where
  "fmt_1f (Float s m e) =
     (if s then [45] else []) @ digits (tenths m e div 10) @ [46, 48 + tenths m e mod 10]"
| "fmt_1f (FInf s) = (if s then ustr ''-inf'' else ustr ''inf'')"
| "fmt_1f FNaN = ustr ''nan''"

text \<open>
  What \<open>time.sleep(d)\<close> raises before it sleeps. A NaN is refused. The seconds are
  multiplied by \<open>10\<^sup>9\<close> as floats, and the nanoseconds \<open>x\<close> have to fit 64 signed
  bits, \<open>-2\<^sup>6\<^sup>3 \<le> x < 2\<^sup>6\<^sup>3\<close>; then a negative length is refused.
\<close>

fun nanoseconds_fit :: "float64 \<Rightarrow> bool" where
  "nanoseconds_fit (Float s m e) =
     (if s then
        (if 0 \<le> e then int m * 2 ^ nat e \<le> 2 ^ 63 else int m \<le> 2 ^ 63 * 2 ^ nat (- e))
      else
        (if 0 \<le> e then int m * 2 ^ nat e < 2 ^ 63 else int m < 2 ^ 63 * 2 ^ nat (- e)))"
| "nanoseconds_fit other = False"

fun sleep_error :: "float64 \<Rightarrow> exc option" where
  "sleep_error FNaN = Some (ustr ''ValueError'')"
| "sleep_error (FInf s) = Some (ustr ''OverflowError'')"
| "sleep_error (Float s m e) =
     (if \<not> nanoseconds_fit (fmul (Float s m e) (float_of_nat 1000000000))
      then Some (ustr ''OverflowError'')
      else if s \<and> 0 < m then Some (ustr ''ValueError'')
      else None)"

section \<open>Decoded JSON values and their renderings\<close>

text \<open>
  A float is carried by its shortest round-trip decimal: a sign, the significant digits
  and the position of the decimal point (the value is \<open>0.d\<^sub>1d\<^sub>2\<dots> \<times> 10\<^sup>p\<close>), or it is
  an infinity or a NaN. Computing those digits from the bits is the runtime's business.
\<close>

datatype pyfloat = Finite bool "nat list" int | Inf bool | NaN

text \<open>
  What \<open>response.json()\<close> can give: a dict, a list, or a value that is neither.
  A dict keeps its members in insertion order.
\<close>

datatype scalar = PyNone | PyBool bool | PyInt int | PyFloat pyfloat | PyStr pystr

datatype json =
    Atom scalar
  | JList "json list"
  | JDict "(pystr \<times> json) list"

definition digit_chars :: "nat list \<Rightarrow> pystr" where
  "digit_chars ds = map (\<lambda>d. 48 + d) ds"

text \<open>\<open>repr\<close> of a finite float: exponent notation from \<open>1e16\<close> up and below \<open>1e-4\<close>.\<close>

definition float_repr_finite :: "bool \<Rightarrow> nat list \<Rightarrow> int \<Rightarrow> pystr" where
  "float_repr_finite neg ds p =
     (if neg then [45] else []) @
     (if p \<le> - 4 \<or> 16 < p then
        digit_chars (take 1 ds) @
        (if length ds > 1 then 46 # digit_chars (drop 1 ds) else []) @
        [101] @ (if p - 1 < 0 then [45] else [43]) @ zfill 2 (digits (nat \<bar>p - 1\<bar>))
      else if p \<le> 0 then
        ustr ''0.'' @ replicate (nat (- p)) 48 @ digit_chars ds
      else if int (length ds) \<le> p then
        digit_chars ds @ replicate (nat p - length ds) 48 @ ustr ''.0''
      else
        digit_chars (take (nat p) ds) @ [46] @ digit_chars (drop (nat p) ds))"

text \<open>\<open>str(x)\<close> of a float.\<close>

fun str_float :: "pyfloat \<Rightarrow> pystr" where
  "str_float (Finite neg ds p) = float_repr_finite neg ds p"
| "str_float (Inf neg) = (if neg then ustr ''-inf'' else ustr ''inf'')"
| "str_float NaN = ustr ''nan''"

text \<open>A float inside \<open>json.dumps\<close> (\<open>allow_nan\<close> is left at its default).\<close>

fun dumps_float :: "pyfloat \<Rightarrow> pystr" where
  "dumps_float (Finite neg ds p) = float_repr_finite neg ds p"
| "dumps_float (Inf neg) = (if neg then ustr ''-Infinity'' else ustr ''Infinity'')"
| "dumps_float NaN = ustr ''NaN''"

definition hex_digit :: "nat \<Rightarrow> nat" where
  "hex_digit d = (if d < 10 then 48 + d else 87 + d)"

text \<open>The escape \<open>\uXXXX\<close> of one 16-bit unit, in lower-case hexadecimal.\<close>

definition u_escape :: "nat \<Rightarrow> pystr" where
  "u_escape n =
     [92, 117, hex_digit (n div 4096 mod 16), hex_digit (n div 256 mod 16),
      hex_digit (n div 16 mod 16), hex_digit (n mod 16)]"

text \<open>
  One character of a string under \<open>ensure_ascii\<close>: printable ASCII other than the quote
  and the backslash stays; everything else is escaped, code points beyond the basic
  plane as a surrogate pair.
\<close>

definition escape_char :: "nat \<Rightarrow> pystr" where
  "escape_char c =
     (if c = 34 then [92, 34]
      else if c = 92 then [92, 92]
      else if 32 \<le> c \<and> c \<le> 126 then [c]
      else if c = 10 then [92, 110]
      else if c = 13 then [92, 114]
      else if c = 9 then [92, 116]
      else if c = 12 then [92, 102]
      else if c = 8 then [92, 98]
      else if c < 65536 then u_escape c
      else u_escape (55296 + (c - 65536) div 1024 mod 1024) @
           u_escape (56320 + (c - 65536) mod 1024))"

definition encode_str :: "pystr \<Rightarrow> pystr" where
  "encode_str s = [34] @ concat (map escape_char s) @ [34]"

fun join :: "pystr \<Rightarrow> pystr list \<Rightarrow> pystr" where
  "join sep [] = []"
| "join sep [x] = x"
| "join sep (x # y # ys) = x @ sep @ join sep (y # ys)"

text \<open>\<open>json.dumps(data, separators=(",", ":"))\<close> on a decoded value.\<close>

fun dumps_scalar :: "scalar \<Rightarrow> pystr" where
  "dumps_scalar PyNone = ustr ''null''"
| "dumps_scalar (PyBool b) = (if b then ustr ''true'' else ustr ''false'')"
| "dumps_scalar (PyInt i) = str_int i"
| "dumps_scalar (PyFloat x) = dumps_float x"
| "dumps_scalar (PyStr s) = encode_str s"

fun dumps :: "json \<Rightarrow> pystr" where
  "dumps (Atom a) = dumps_scalar a"
| "dumps (JList vs) = [91] @ join [44] (map dumps vs) @ [93]"
| "dumps (JDict kvs) =
     [123] @ join [44] (map (\<lambda>kv. encode_str (fst kv) @ [58] @ dumps (snd kv)) kvs) @ [125]"

text \<open>\<open>str(data)\<close> on a decoded value that is neither a dict nor a list.\<close>

fun str_scalar :: "scalar \<Rightarrow> pystr" where
  "str_scalar PyNone = ustr ''None''"
| "str_scalar (PyBool b) = (if b then ustr ''True'' else ustr ''False'')"
| "str_scalar (PyInt i) = str_int i"
| "str_scalar (PyFloat x) = str_float x"
| "str_scalar (PyStr s) = s"

section \<open>The response formatter\<close>

text \<open>
  What \<open>response.json()\<close> does: it gives the decoded value, it raises a
  \<open>ValueError\<close> on a body that is not JSON, or it raises something else (a
  \<open>RecursionError\<close> on a body nested too deeply).
\<close>

datatype json_outcome = Decoded json | ValueError | OtherError exc

text \<open>
  The part of a \<open>requests.Response\<close> the program reads: the status code, the decoded
  text, and what \<open>response.json()\<close> does.
\<close>

record Response =
  status_code :: int
  text' :: pystr
  json :: json_outcome

text \<open>\<open>format_body\<close> catches the \<open>ValueError\<close> only: \<open>Inl\<close> is an exception it lets through.\<close>

definition format_body :: "Response \<Rightarrow> bool \<Rightarrow> exc + pystr" where
  "format_body response raw =
     (if raw then
        (let body = strip (text' response) in Inr (or_else body (ustr ''<empty body>'')))
      else
        (case json response of
           ValueError \<Rightarrow>
             (let snippet = strip (text' response)
              in Inr (or_else snippet (ustr ''<non-JSON body>'')))
         | OtherError e \<Rightarrow> Inl e
         | Decoded data \<Rightarrow>
             (case data of
                JDict kvs \<Rightarrow> Inr (dumps data)
              | JList vs \<Rightarrow> Inr (dumps data)
              | Atom a \<Rightarrow> Inr (str_scalar a))))"

section \<open>The header set builder\<close>

fun flatten_headers_from :: "(pystr \<rightharpoonup> pystr) \<Rightarrow> (pystr \<times> pystr) list \<Rightarrow> (pystr \<rightharpoonup> pystr)" where
  "flatten_headers_from headers [] = headers"
| "flatten_headers_from headers ((name, val) # items) =
     flatten_headers_from (headers(name \<mapsto> val)) items"

definition flatten_headers :: "(pystr \<times> pystr) list \<Rightarrow> (pystr \<rightharpoonup> pystr)" where
  "flatten_headers items = flatten_headers_from Map.empty items"

section \<open>The polling engine\<close>

record PollStats =
  total :: int
  success :: int
  failure :: int

text \<open>The parsed command line, as \<open>build_parser\<close> declares it.\<close>

record Args =
  url :: pystr
  interval :: float64
  timeout :: float64
  count :: int
  header :: "(pystr \<times> pystr) list"
  insecure :: bool
  raw :: bool

text \<open>The arguments of one \<open>session.get\<close> call.\<close>

record Request =
  get_url :: pystr
  get_timeout :: float64
  get_headers :: "pystr \<rightharpoonup> pystr"
  get_verify :: bool

text \<open>
  How a \<open>session.get\<close> call ends: it returns a response, it raises a
  \<open>requests.RequestException\<close> (kept as the name of its class and its \<open>str\<close>), the
  user's interrupt arrives while it blocks, or it raises an exception of another kind
  (a \<open>UnicodeEncodeError\<close> on a header value outside Latin-1), which nothing catches.
\<close>

datatype get_outcome =
    Returned Response
  | RequestException pystr pystr
  | KeyboardInterrupt
  | OtherException exc

datatype stream = Stdout | Stderr

text \<open>
  Everything outside the program. The transport is indexed by the number of the call,
  which is the number of the attempt, and so are the two clock readings of an attempt.
  A \<open>print\<close> may raise (a closed pipe, a text the stream cannot encode). The user's
  interrupt is taken where the program blocks: during \<open>session.get\<close> (the third outcome
  above) and during \<open>time.sleep\<close> (\<open>sleep_interrupted k\<close>, for the sleep after
  attempt \<open>k\<close>). Every call of the transport and every sleep comes to an end. At
  exit the interpreter flushes the standard streams, which may fail.
\<close>

record World =
  session_get :: "int \<Rightarrow> Request \<Rightarrow> get_outcome"
  sleep_interrupted :: "int \<Rightarrow> bool"
  print_error :: "stream \<Rightarrow> pystr \<Rightarrow> exc option"
  start_time_at :: float64
  tick_start_at :: "int \<Rightarrow> float64"
  tick_end_at :: "int \<Rightarrow> float64"
  end_time_at :: float64
  exit_flush_fails :: bool

text \<open>
  What a run does, in the order it does it: a write to the statistics (with the value
  written), a request handed to the transport, a \<open>print\<close> that went through (without the
  line end it appends), a call of \<open>time.sleep\<close>.
\<close>

datatype effect =
    Wrote PollStats
  | Issued Request
  | Printed stream pystr
  | Sleep float64

record State =
  stats :: PollStats
  effects :: "effect list"

definition emit :: "effect \<Rightarrow> State \<Rightarrow> State" where
  "emit e st = st\<lparr>effects := effects st @ [e]\<rparr>"

definition write_stats :: "PollStats \<Rightarrow> State \<Rightarrow> State" where
  "write_stats s st = \<lparr>stats = s, effects = effects st @ [Wrote s]\<rparr>"

text \<open>\<open>print(line, file=stream)\<close>.\<close>

definition print_line :: "World \<Rightarrow> stream \<Rightarrow> pystr \<Rightarrow> State \<Rightarrow> exc + State" where
  "print_line w str line st =
     (case print_error w str line of
        Some e \<Rightarrow> Inl e
      | None \<Rightarrow> Inr (emit (Printed str line) st))"

text \<open>The loop condition \<open>limit is None or stats.total < limit\<close>.\<close>

definition running :: "int option \<Rightarrow> PollStats \<Rightarrow> bool" where
  "running limit s = (case limit of None \<Rightarrow> True | Some n \<Rightarrow> total s < n)"

text \<open>The exit test \<open>limit is not None and stats.total >= limit\<close>.\<close>

definition limit_reached :: "int option \<Rightarrow> PollStats \<Rightarrow> bool" where
  "limit_reached limit s = (case limit of None \<Rightarrow> False | Some n \<Rightarrow> total s \<ge> n)"

definition error_line :: "int \<Rightarrow> pystr \<Rightarrow> pystr \<Rightarrow> pystr" where
  "error_line request_id cls msg =
     ustr ''['' @ fmt_04 request_id @ ustr ''] ERROR '' @ cls @ ustr '': '' @ msg"

definition success_line :: "int \<Rightarrow> int \<Rightarrow> float64 \<Rightarrow> pystr \<Rightarrow> pystr" where
  "success_line request_id status latency_ms body =
     ustr ''['' @ fmt_04 request_id @ ustr ''] '' @ str_int status @ ustr '' '' @
     fmt_1f latency_ms @ ustr ''ms '' @ body"

text \<open>\<open>(time.perf_counter() - tick_start) * 1000\<close>.\<close>

definition latency :: "float64 \<Rightarrow> float64 \<Rightarrow> float64" where
  "latency tick_start now = fmul (fsub now tick_start) (float_of_nat 1000)"

text \<open>
  How one pass through the loop body ends: the loop goes on, it is left by \<open>break\<close>,
  by the interrupt, or by an exception that nothing catches.
\<close>

datatype passed = Again State | Break State | Interrupt State | Abort exc State

text \<open>The lines after the attempt: the exit test, then the sleep.\<close>

definition pause :: "World \<Rightarrow> Args \<Rightarrow> int option \<Rightarrow> int \<Rightarrow> State \<Rightarrow> passed" where
  "pause w args limit request_id st =
     (if limit_reached limit (stats st) then Break st
      else if fpos (interval args) then
        (let st = emit (Sleep (interval args)) st
         in case sleep_error (interval args) of
              Some e \<Rightarrow> Abort e st
            | None \<Rightarrow> if sleep_interrupted w request_id then Interrupt st else Again st)
      else Again st)"

definition request_of :: "Args \<Rightarrow> (pystr \<rightharpoonup> pystr) \<Rightarrow> bool \<Rightarrow> Request" where
  "request_of args headers verify =
     \<lparr>get_url = url args, get_timeout = timeout args,
      get_headers = headers, get_verify = verify\<rparr>"

text \<open>One pass through the loop body.\<close>

definition attempt ::
  "World \<Rightarrow> Args \<Rightarrow> (pystr \<rightharpoonup> pystr) \<Rightarrow> int option \<Rightarrow> bool \<Rightarrow> State \<Rightarrow> passed" where
  "attempt w args headers limit verify st0 =
     (let request_id = total (stats st0) + 1;
          st = write_stats ((stats st0)\<lparr>total := total (stats st0) + 1\<rparr>) st0;
          tick_start = tick_start_at w request_id;
          request = request_of args headers verify;
          st = emit (Issued request) st
      in case session_get w request_id request of
           KeyboardInterrupt \<Rightarrow> Interrupt st
         | OtherException e \<Rightarrow> Abort e st
         | RequestException cls msg \<Rightarrow>
             (let st = write_stats ((stats st)\<lparr>failure := failure (stats st) + 1\<rparr>) st
              in case print_line w Stderr (error_line request_id cls msg) st of
                   Inl e \<Rightarrow> Abort e st
                 | Inr st \<Rightarrow> pause w args limit request_id st)
         | Returned response \<Rightarrow>
             (let st = write_stats ((stats st)\<lparr>success := success (stats st) + 1\<rparr>) st;
                  latency_ms = latency tick_start (tick_end_at w request_id)
              in case format_body response (raw args) of
                   Inl e \<Rightarrow> Abort e st
                 | Inr body \<Rightarrow>
                     (case print_line w Stdout
                             (success_line request_id (status_code response) latency_ms body) st of
                        Inl e \<Rightarrow> Abort e st
                      | Inr st \<Rightarrow> pause w args limit request_id st)))"

text \<open>How the loop is left.\<close>

datatype ending = Finished | Interrupted | Aborted exc

partial_function (option) poll_loop ::
  "World \<Rightarrow> Args \<Rightarrow> (pystr \<rightharpoonup> pystr) \<Rightarrow> int option \<Rightarrow> bool \<Rightarrow> State
     \<Rightarrow> (State \<times> ending) option" where
  "poll_loop w args headers limit verify st =
     (if running limit (stats st) then
        (case attempt w args headers limit verify st of
           Again st' \<Rightarrow> poll_loop w args headers limit verify st'
         | Break st' \<Rightarrow> Some (st', Finished)
         | Interrupt st' \<Rightarrow> Some (st', Interrupted)
         | Abort e st' \<Rightarrow> Some (st', Aborted e))
      else Some (st, Finished))"


definition limit_of :: "Args \<Rightarrow> int option" where
  "limit_of args = (if count args = 0 then None else Some (count args))"

definition initial :: State where
  "initial = \<lparr>stats = \<lparr>total = 0, success = 0, failure = 0\<rparr>, effects = []\<rparr>"

text \<open>The loop as \<open>poll\<close> enters it; \<open>None\<close> is a run that never leaves the loop.\<close>

definition run :: "World \<Rightarrow> Args \<Rightarrow> (State \<times> ending) option" where
  "run w args =
     poll_loop w args (flatten_headers (header args)) (limit_of args) (\<not> insecure args) initial"




section \<open>A run in closed form\<close>

text \<open>
  The functions below describe a run from outside the loop, by the number of the
  attempt alone. The request is the same for every attempt.
\<close>

definition the_request :: "Args \<Rightarrow> Request" where
  "the_request args = request_of args (flatten_headers (header args)) (\<not> insecure args)"

definition outcome :: "World \<Rightarrow> Args \<Rightarrow> int \<Rightarrow> get_outcome" where
  "outcome w args k = session_get w k (the_request args)"

fun is_returned :: "get_outcome \<Rightarrow> bool" where
  "is_returned (Returned r) = True"
| "is_returned other = False"

fun is_raised :: "get_outcome \<Rightarrow> bool" where
  "is_raised (RequestException cls msg) = True"
| "is_raised other = False"

text \<open>
  The statistics once \<open>k\<close> attempts have been started and the last of them has been
  counted or has left the loop.
\<close>

definition tally :: "World \<Rightarrow> Args \<Rightarrow> int \<Rightarrow> PollStats" where
  "tally w args k =
     \<lparr>total = k,
      success = int (length (filter (\<lambda>j. is_returned (outcome w args j)) [1..k])),
      failure = int (length (filter (\<lambda>j. is_raised (outcome w args j)) [1..k]))\<rparr>"

text \<open>
  The exception that attempt \<open>k\<close> raises after it has been counted: the one
  \<open>format_body\<close> lets through, or the one \<open>print\<close> raises on the line.
\<close>

definition line_error :: "World \<Rightarrow> Args \<Rightarrow> int \<Rightarrow> exc option" where
  "line_error w args k =
     (case outcome w args k of
        Returned response \<Rightarrow>
          (case format_body response (raw args) of
             Inl e \<Rightarrow> Some e
           | Inr body \<Rightarrow>
               print_error w Stdout
                 (success_line k (status_code response)
                    (latency (tick_start_at w k) (tick_end_at w k)) body))
      | RequestException cls msg \<Rightarrow> print_error w Stderr (error_line k cls msg)
      | KeyboardInterrupt \<Rightarrow> None
      | OtherException e \<Rightarrow> None)"

text \<open>The line that attempt \<open>k\<close> hands to \<open>print\<close>, if it gets that far.\<close>

definition attempt_line :: "World \<Rightarrow> Args \<Rightarrow> int \<Rightarrow> effect list" where
  "attempt_line w args k =
     (case outcome w args k of
        Returned response \<Rightarrow>
          (case format_body response (raw args) of
             Inl e \<Rightarrow> []
           | Inr body \<Rightarrow>
               [Printed Stdout
                  (success_line k (status_code response)
                     (latency (tick_start_at w k) (tick_end_at w k)) body)])
      | RequestException cls msg \<Rightarrow> [Printed Stderr (error_line k cls msg)]
      | KeyboardInterrupt \<Rightarrow> []
      | OtherException e \<Rightarrow> [])"

text \<open>
  Whether pass \<open>k\<close> reaches the exit test: the request returned or raised a
  \<open>RequestException\<close>, and the line went out.
\<close>

definition completes :: "World \<Rightarrow> Args \<Rightarrow> int \<Rightarrow> bool" where
  "completes w args k \<longleftrightarrow>
     (is_returned (outcome w args k) \<or> is_raised (outcome w args k)) \<and>
     line_error w args k = None"

text \<open>Whether a pass that reaches the exit test after attempt \<open>k\<close> calls \<open>time.sleep\<close>.\<close>

definition sleeps_after :: "Args \<Rightarrow> int \<Rightarrow> bool" where
  "sleeps_after args k \<longleftrightarrow>
     \<not> limit_reached (limit_of args) \<lparr>total = k, success = 0, failure = 0\<rparr> \<and>
     fpos (interval args)"

text \<open>Everything pass \<open>k\<close> of the loop does.\<close>

definition pass_effects :: "World \<Rightarrow> Args \<Rightarrow> int \<Rightarrow> effect list" where
  "pass_effects w args k =
     [Wrote ((tally w args (k - 1))\<lparr>total := k\<rparr>), Issued (the_request args)] @
     (if is_returned (outcome w args k) \<or> is_raised (outcome w args k)
      then [Wrote (tally w args k)] @
           (if line_error w args k = None
            then attempt_line w args k @
                 (if sleeps_after args k then [Sleep (interval args)] else [])
            else [])
      else [])"

text \<open>Whether pass \<open>k\<close> leaves the loop, and how.\<close>

definition pass_stops :: "World \<Rightarrow> Args \<Rightarrow> int \<Rightarrow> ending option" where
  "pass_stops w args k =
     (case outcome w args k of
        KeyboardInterrupt \<Rightarrow> Some Interrupted
      | OtherException e \<Rightarrow> Some (Aborted e)
      | _ \<Rightarrow>
          (case line_error w args k of
             Some e \<Rightarrow> Some (Aborted e)
           | None \<Rightarrow>
               if limit_reached (limit_of args) \<lparr>total = k, success = 0, failure = 0\<rparr>
               then Some Finished
               else if fpos (interval args) then
                 (case sleep_error (interval args) of
                    Some e \<Rightarrow> Some (Aborted e)
                  | None \<Rightarrow> if sleep_interrupted w k then Some Interrupted else None)
               else None))"

text \<open>Pass \<open>k\<close> is cut by the interrupt; pass \<open>k\<close> is left by an exception.\<close>

definition interrupted_in :: "World \<Rightarrow> Args \<Rightarrow> int \<Rightarrow> bool" where
  "interrupted_in w args k \<longleftrightarrow> pass_stops w args k = Some Interrupted"

definition aborted_in :: "World \<Rightarrow> Args \<Rightarrow> int \<Rightarrow> bool" where
  "aborted_in w args k \<longleftrightarrow> (case pass_stops w args k of Some (Aborted e) \<Rightarrow> True | _ \<Rightarrow> False)"

text \<open>The state at the head of the loop once \<open>k\<close> passes have been made.\<close>

definition state_after :: "World \<Rightarrow> Args \<Rightarrow> int \<Rightarrow> State" where
  "state_after w args k =
     \<lparr>stats = tally w args k, effects = concat (map (pass_effects w args) [1..k])\<rparr>"

text \<open>
  A run that is at the head of the loop after \<open>k\<close> passes ends after \<open>n\<close>: the loop
  condition holds before each pass in between, none of them but the last leaves the
  loop, and the last one leaves it in the way given; or no pass is made at all
  because the loop condition fails.
\<close>

definition run_ends :: "World \<Rightarrow> Args \<Rightarrow> int \<Rightarrow> int \<Rightarrow> ending \<Rightarrow> bool" where
  "run_ends w args k n how \<longleftrightarrow>
     k \<le> n \<and>
     (\<forall>j. k < j \<and> j < n \<longrightarrow> pass_stops w args j = None) \<and>
     (\<forall>j. k \<le> j \<and> j < n \<longrightarrow> running (limit_of args) (tally w args j)) \<and>
     (if k < n then pass_stops w args n = Some how
      else how = Finished \<and> \<not> running (limit_of args) (tally w args k))"


section \<open>Reading the effects\<close>

definition snapshots :: "effect list \<Rightarrow> PollStats list" where
  "snapshots es = concat (map (\<lambda>e. case e of Wrote s \<Rightarrow> [s] | _ \<Rightarrow> []) es)"

definition printed :: "effect list \<Rightarrow> (stream \<times> pystr) list" where
  "printed es = concat (map (\<lambda>e. case e of Printed str line \<Rightarrow> [(str, line)] | _ \<Rightarrow> []) es)"

definition slept :: "effect list \<Rightarrow> float64 list" where
  "slept es = concat (map (\<lambda>e. case e of Sleep d \<Rightarrow> [d] | _ \<Rightarrow> []) es)"

text \<open>The requests handed to the transport.\<close>

definition issued :: "effect list \<Rightarrow> Request list" where
  "issued es = concat (map (\<lambda>e. case e of Issued r \<Rightarrow> [r] | _ \<Rightarrow> []) es)"


text \<open>The number a text of decimal digits denotes.\<close>

definition decimal :: "pystr \<Rightarrow> nat" where
  "decimal s = foldl (\<lambda>a c. 10 * a + (c - 48)) 0 s"

text \<open>The sequence number of a line: what stands between its brackets.\<close>

definition seq_no :: "pystr \<Rightarrow> nat" where
  "seq_no line = decimal (takeWhile (\<lambda>c. c \<noteq> 93) (drop 1 line))"

text \<open>The real number a finite float stands for.\<close>

definition float_value :: "bool \<Rightarrow> nat \<Rightarrow> int \<Rightarrow> real" where
  "float_value s m e = (if s then - 1 else 1) * real m * 2 powr real_of_int e"

section \<open>Sample runs\<close>

text \<open>
  In the first run the limit is two; the first request brings back a response with
  status 503 after 12.20703125 ms, the second one times out.
\<close>

definition demo_response :: Response where
  "demo_response =
     \<lparr>status_code = 503, text' = ustr '' [1, 2] '',
      json = Decoded (JList [Atom (PyInt 1), Atom (PyInt 2)])\<rparr>"

definition demo_args :: Args where
  "demo_args =
     \<lparr>url = ustr ''http://localhost:9001/color'', interval = Float False 1 (- 1),
      timeout = Float False 1 0, count = 2, header = [], insecure = False, raw = False\<rparr>"

definition demo_world :: World where
  "demo_world =
     \<lparr>session_get = (\<lambda>k request.
        if k = 1 then Returned demo_response
        else RequestException (ustr ''ConnectTimeout'') (ustr ''timed out'')),
      sleep_interrupted = (\<lambda>k. False),
      print_error = (\<lambda>str line. None),
      start_time_at = Float False 1 0,
      tick_start_at = (\<lambda>k. Float False 2 0),
      tick_end_at = (\<lambda>k. Float False 4121 (- 11)),
      end_time_at = Float False 7 (- 1),
      exit_flush_fails = False\<rparr>"





text \<open>An interval of \<open>1e10\<close> seconds, which \<open>time.sleep\<close> refuses.\<close>

definition long_args :: Args where
  "long_args = demo_args\<lparr>interval := Float False 10000000000 0\<rparr>"

text \<open>
  A body nested too deeply, a hundred thousand opening brackets and as many closing
  ones: the response comes back, and \<open>response.json()\<close> raises a
  \<open>RecursionError\<close>.
\<close>

definition nested_response :: Response where
  "nested_response =
     \<lparr>status_code = 200, text' = replicate 100000 91 @ replicate 100000 93,
      json = OtherError (ustr ''RecursionError'')\<rparr>"

definition nested_world :: World where
  "nested_world = demo_world\<lparr>session_get := (\<lambda>k request. Returned nested_response)\<rparr>"

definition single_args :: Args where
  "single_args = demo_args\<lparr>count := 1\<rparr>"

section \<open>Texts and renderings\<close>

lemma flatten_headers_from_eq:
  "flatten_headers_from h items = h ++ map_of (rev items)"
proof (induction items arbitrary: h)
  case Nil
  show ?case by simp
next
  case (Cons item items)
  obtain name val where item: "item = (name, val)" by (cases item)
  have eq: "h(name \<mapsto> val) ++ map_of (rev items) = h ++ map_of (rev (item # items))"
    unfolding item by (rule ext) (simp add: map_add_def split: option.splits)
  have "flatten_headers_from h (item # items) = flatten_headers_from (h(name \<mapsto> val)) items"
    by (simp add: item)
  also have "\<dots> = h(name \<mapsto> val) ++ map_of (rev items)"
    by (rule Cons.IH)
  also note eq
  finally show ?case .
qed

lemma flatten_headers_eq: "flatten_headers items = map_of (rev items)"
  by (simp add: flatten_headers_def flatten_headers_from_eq)

lemma strip_split:
  "\<exists>pre suf. s = pre @ strip s @ suf \<and> (\<forall>c \<in> set pre. isspace c) \<and> (\<forall>c \<in> set suf. isspace c)"
proof -
  let ?a = "takeWhile isspace s" and ?m = "dropWhile isspace s"
  let ?b = "rev (takeWhile isspace (rev ?m))"
  have 1: "s = ?a @ ?m" by simp
  have "rev ?m = takeWhile isspace (rev ?m) @ dropWhile isspace (rev ?m)" by simp
  then have "?m = rev (dropWhile isspace (rev ?m)) @ ?b"
    by (metis rev_append rev_rev_ident)
  then have 2: "?m = strip s @ ?b" by (simp add: strip_def)
  have 3: "\<forall>c \<in> set ?a. isspace c" by (auto dest: set_takeWhileD)
  have 4: "\<forall>c \<in> set ?b. isspace c" by (auto dest: set_takeWhileD)
  from 1 2 have "s = ?a @ strip s @ ?b" by metis
  with 3 4 show ?thesis by blast
qed

lemma strip_hd: "strip s \<noteq> [] \<Longrightarrow> \<not> isspace (hd (strip s))"
proof -
  assume ne: "strip s \<noteq> []"
  let ?m = "dropWhile isspace s"
  have m: "?m \<noteq> []"
  proof
    assume a: "?m = []"
    have "strip s = []" unfolding strip_def a by simp
    with ne show False by simp
  qed
  have hm: "\<not> isspace (hd ?m)" using m by (rule hd_dropWhile)
  obtain b where "?m = strip s @ b"
    by (metis strip_def append_take_drop_id rev_append rev_rev_ident takeWhile_dropWhile_id)
  then have "hd ?m = hd (strip s)" using ne by (metis hd_append2)
  with hm show ?thesis by simp
qed

lemma strip_last: "strip s \<noteq> [] \<Longrightarrow> \<not> isspace (last (strip s))"
proof -
  assume ne: "strip s \<noteq> []"
  let ?r = "dropWhile isspace (rev (dropWhile isspace s))"
  have r: "?r \<noteq> []" using ne by (simp add: strip_def)
  have "\<not> isspace (hd ?r)" using r by (rule hd_dropWhile)
  moreover have "last (strip s) = hd ?r" using r by (simp add: strip_def last_rev)
  ultimately show ?thesis by simp
qed

lemma isspace_newline: "isspace newline"
  by (simp add: isspace_def newline_def)

lemma digits_range: "c \<in> set (digits n) \<Longrightarrow> 48 \<le> c \<and> c \<le> 57"
proof (induction n rule: digits.induct)
  case (1 n)
  show ?case
  proof (cases "n < 10")
    case True
    with "1.prems" show ?thesis by (simp add: digits.simps [of n])
  next
    case False
    with "1.prems" have "c \<in> set (digits (n div 10)) \<or> c = 48 + n mod 10"
      by (auto simp: digits.simps [of n])
    then show ?thesis
    proof
      assume "c \<in> set (digits (n div 10))"
      with False "1.IH" show ?thesis by simp
    next
      assume "c = 48 + n mod 10"
      moreover have "n mod 10 < 10" by simp
      ultimately show ?thesis by linarith
    qed
  qed
qed

lemma digits_nonempty: "digits n \<noteq> []"
  by (subst digits.simps) simp

lemma str_int_ge: "c \<in> set (str_int i) \<Longrightarrow> 32 \<le> c"
  by (auto simp: str_int_def dest: digits_range split: if_splits)

lemma ustr_ge: "c \<in> set (ustr s) \<Longrightarrow> \<forall>x \<in> set s. 32 \<le> (of_char x :: nat) \<Longrightarrow> 32 \<le> c"
  by (auto simp: ustr_def)

lemma zfill_ge: "c \<in> set (zfill w s) \<Longrightarrow> c = 48 \<or> c \<in> set s"
  by (auto simp: zfill_def)

lemma digit_chars_ge: "c \<in> set (digit_chars ds) \<Longrightarrow> 48 \<le> c"
  by (auto simp: digit_chars_def)

lemma float_repr_finite_ge: "c \<in> set (float_repr_finite neg ds p) \<Longrightarrow> 32 \<le> c"
  unfolding float_repr_finite_def
  by (auto simp: ustr_def split: if_splits
      dest!: zfill_ge digit_chars_ge digits_range in_set_takeD in_set_dropD)

lemma dumps_float_ge: "c \<in> set (dumps_float x) \<Longrightarrow> 32 \<le> c"
  by (cases x) (auto simp: ustr_def dest: float_repr_finite_ge split: if_splits)

lemma str_float_ge: "c \<in> set (str_float x) \<Longrightarrow> 32 \<le> c"
  by (cases x) (auto simp: ustr_def dest: float_repr_finite_ge split: if_splits)

lemma hex_digit_ge: "48 \<le> hex_digit d"
  by (simp add: hex_digit_def)

lemma u_escape_ge: "c \<in> set (u_escape n) \<Longrightarrow> 32 \<le> c"
  using hex_digit_ge [of "n div 4096 mod 16"] hex_digit_ge [of "n div 256 mod 16"]
    hex_digit_ge [of "n div 16 mod 16"] hex_digit_ge [of "n mod 16"]
  by (auto simp: u_escape_def)

lemma escape_char_ge: "c \<in> set (escape_char x) \<Longrightarrow> 32 \<le> c"
  by (auto simp: escape_char_def dest: u_escape_ge split: if_splits)

lemma encode_str_ge: "c \<in> set (encode_str s) \<Longrightarrow> 32 \<le> c"
  by (auto simp: encode_str_def dest: escape_char_ge)

lemma join_set: "c \<in> set (join sep xs) \<Longrightarrow> c \<in> set sep \<or> (\<exists>x \<in> set xs. c \<in> set x)"
  by (induction sep xs rule: join.induct) auto

lemma dumps_scalar_ge: "c \<in> set (dumps_scalar a) \<Longrightarrow> 32 \<le> c"
  by (cases a) (auto simp: ustr_def dest: str_int_ge dumps_float_ge encode_str_ge split: if_splits)

lemma dumps_ge: "c \<in> set (dumps v) \<Longrightarrow> 32 \<le> c"
proof (induction v arbitrary: c rule: dumps.induct)
  case (1 a)
  then show ?case by (simp add: dumps_scalar_ge)
next
  case (2 vs)
  from "2.prems" have "c = 91 \<or> c = 93 \<or> c \<in> set (join [44] (map dumps vs))" by auto
  then show ?case
  proof (elim disjE)
    assume "c \<in> set (join [44] (map dumps vs))"
    then have "c = 44 \<or> (\<exists>v \<in> set vs. c \<in> set (dumps v))"
      using join_set [of c "[44]" "map dumps vs"] by auto
    with "2.IH" show ?thesis by auto
  qed simp_all
next
  case (3 kvs)
  let ?f = "\<lambda>kv. encode_str (fst kv) @ [58] @ dumps (snd kv)"
  from "3.prems" have "c = 123 \<or> c = 125 \<or> c \<in> set (join [44] (map ?f kvs))" by auto
  then show ?case
  proof (elim disjE)
    assume "c \<in> set (join [44] (map ?f kvs))"
    then have "c = 44 \<or> (\<exists>kv \<in> set kvs. c \<in> set (?f kv))"
      using join_set [of c "[44]" "map ?f kvs"] by auto
    then show ?thesis
    proof
      assume "\<exists>kv \<in> set kvs. c \<in> set (?f kv)"
      then obtain kv where kv: "kv \<in> set kvs" "c \<in> set (?f kv)" by blast
      then have "c \<in> set (encode_str (fst kv)) \<or> c = 58 \<or> c \<in> set (dumps (snd kv))" by auto
      with kv "3.IH" [of kv c] show ?thesis by (auto dest: encode_str_ge)
    qed simp
  qed simp_all
qed

section \<open>Rounding\<close>

lemma rne_div_near:
  assumes "0 < d"
  shows "\<bar>real (rne_div n d) - real n / real d\<bar> \<le> 1 / 2"
proof -
  define q r where "q = n div d" and "r = n mod d"
  have n: "real n = real q * real d + real r"
    unfolding q_def r_def by (metis div_mult_mod_eq of_nat_add of_nat_mult)
  have rd: "r < d" using assms by (simp add: r_def)
  have quot: "real n / real d = real q + real r / real d"
    using assms by (simp add: n field_simps)
  show ?thesis
  proof (cases "2 * r > d \<or> (2 * r = d \<and> odd q)")
    case True
    then have res: "rne_div n d = q + 1"
      by (simp add: rne_div_def Let_def q_def r_def)
    from True have "d \<le> 2 * r" by auto
    then have "real d \<le> 2 * real r" by (metis of_nat_le_iff of_nat_mult of_nat_numeral)
    then have "1 / 2 \<le> real r / real d" using assms by (simp add: field_simps)
    moreover have "real r / real d < 1" using rd assms by simp
    ultimately show ?thesis by (simp add: res quot)
  next
    case False
    then have res: "rne_div n d = q"
      by (simp add: rne_div_def Let_def q_def r_def)
    from False have "2 * r \<le> d" by auto
    then have "2 * real r \<le> real d" by (metis of_nat_le_iff of_nat_mult of_nat_numeral)
    then have "real r / real d \<le> 1 / 2" using assms by (simp add: field_simps)
    moreover have "0 \<le> real r / real d" by simp
    ultimately show ?thesis by (simp add: res quot)
  qed
qed

lemma rne_div_tie: "0 < d \<Longrightarrow> 2 * (n mod d) = d \<Longrightarrow> even (rne_div n d)"
  by (simp add: rne_div_def Let_def)



lemma round64_exact:
  "int (bitlen m) \<le> 53 \<Longrightarrow> - 1074 \<le> e \<Longrightarrow> int (bitlen m) + e \<le> 1024 \<Longrightarrow>
   round64 s m e = Float s m e"
  by (simp add: round64_def Let_def)

lemma round64_near:
  assumes "round64 s m e = Float s' m' e'"
  shows "s' = s \<and> \<bar>float_value s' m' e' - float_value s m e\<bar> \<le> 2 powr real_of_int e' / 2"
proof -
  define k where "k = max (int (bitlen m) - 53) (- 1074 - e)"
  show ?thesis
  proof (cases "k \<le> 0")
    case True
    with assms have "s' = s \<and> m' = m \<and> e' = e"
      by (simp add: round64_def Let_def k_def [symmetric] split: if_splits)
    then show ?thesis by (simp add: float_value_def)
  next
    case False
    with assms have eq: "s' = s" "m' = rne_div m (2 ^ nat k)" "e' = e + k"
      by (simp_all add: round64_def Let_def k_def [symmetric] split: if_splits)
    have near: "\<bar>real m' - real m / real ((2::nat) ^ nat k)\<bar> \<le> 1 / 2"
      unfolding eq by (rule rne_div_near) simp
    have pw: "2 powr real_of_int e = 2 powr real_of_int e' / 2 ^ nat k"
      using False by (simp add: eq powr_add powr_realpow [symmetric])
    have "real m' * 2 powr real_of_int e' - real m * 2 powr real_of_int e =
        2 powr real_of_int e' * (real m' - real m / 2 ^ nat k)"
      by (simp add: pw algebra_simps)
    then have "\<bar>real m' * 2 powr real_of_int e' - real m * 2 powr real_of_int e\<bar> =
        2 powr real_of_int e' * \<bar>real m' - real m / 2 ^ nat k\<bar>"
      by (simp add: abs_mult)
    also have "\<dots> \<le> 2 powr real_of_int e' * (1 / 2)"
      using near by (intro mult_left_mono) simp_all
    finally have "\<bar>real m' * 2 powr real_of_int e' - real m * 2 powr real_of_int e\<bar>
        \<le> 2 powr real_of_int e' / 2" by simp
    moreover have "\<bar>float_value s m' e' - float_value s m e\<bar> =
        \<bar>real m' * 2 powr real_of_int e' - real m * 2 powr real_of_int e\<bar>"
      by (cases s) (simp_all add: float_value_def)
    ultimately show ?thesis by (simp add: eq)
  qed
qed

section \<open>The formatter and the header set\<close>

lemma placeholder_facts:
  "ustr ''<empty body>'' \<noteq> []" "ustr ''<non-JSON body>'' \<noteq> []"
  "newline \<notin> set (ustr ''<empty body>'')" "newline \<notin> set (ustr ''<non-JSON body>'')"
  "\<not> isspace (hd (ustr ''<empty body>''))" "\<not> isspace (last (ustr ''<empty body>''))"
  "\<not> isspace (hd (ustr ''<non-JSON body>''))" "\<not> isspace (last (ustr ''<non-JSON body>''))"
  by (simp_all add: ustr_def newline_def isspace_def)

lemma format_body_raw:
  "format_body r True =
     Inr (if strip (text' r) = [] then ustr ''<empty body>'' else strip (text' r))"
  by (simp add: format_body_def or_else_def)

lemma format_body_not_json:
  "json r = ValueError \<Longrightarrow>
   format_body r False =
     Inr (if strip (text' r) = [] then ustr ''<non-JSON body>'' else strip (text' r))"
  by (simp add: format_body_def or_else_def)

lemma format_body_json:
  "json r = Decoded v \<Longrightarrow>
   format_body r False = Inr (case v of Atom a \<Rightarrow> str_scalar a | _ \<Rightarrow> dumps v)"
  by (simp add: format_body_def split: json.splits)

lemma format_body_error:
  "json r = OtherError e \<Longrightarrow> format_body r False = Inl e"
  by (simp add: format_body_def)

lemma str_scalar_newline:
  "newline \<in> set (str_scalar a) \<longleftrightarrow> (\<exists>s. a = PyStr s \<and> newline \<in> set s)"
proof (cases a)
  case PyNone
  then show ?thesis by (simp add: ustr_def newline_def)
next
  case (PyBool b)
  then show ?thesis by (simp add: ustr_def newline_def)
next
  case (PyInt i)
  then show ?thesis using str_int_ge [of newline i] by (auto simp: newline_def)
next
  case (PyFloat x)
  then show ?thesis using str_float_ge [of newline x] by (auto simp: newline_def)
next
  case (PyStr s)
  then show ?thesis by simp
qed

lemma dumps_no_newline: "newline \<notin> set (dumps v)"
  using dumps_ge [of newline v] by (auto simp: newline_def)

text \<open>
  Claim C6. The header set builder binds every name to the value of the last pair that
  carries it: a pair with no later pair of the same name gives the binding, the names
  bound are exactly the names in the input, and \<open>[("X", "1"), ("X", "2")]\<close> binds
  \<open>X\<close> to \<open>"2"\<close>.
\<close>

theorem flatten_headers_last_wins:
  "(name \<notin> fst ` set post \<longrightarrow> flatten_headers (pre @ (name, v) # post) name = Some v)
   \<and> dom (flatten_headers items) = fst ` set items
   \<and> flatten_headers [(ustr ''X'', ustr ''1''), (ustr ''X'', ustr ''2'')] (ustr ''X'')
       = Some (ustr ''2'')"
proof (intro conjI impI)
  assume "name \<notin> fst ` set post"
  then have "map_of (rev post) name = None"
    by (simp add: map_of_eq_None_iff)
  then show "flatten_headers (pre @ (name, v) # post) name = Some v"
    by (simp add: flatten_headers_eq map_add_def)
next
  show "dom (flatten_headers items) = fst ` set items"
    by (simp add: flatten_headers_eq dom_map_of_conv_image_fst)
next
  show "flatten_headers [(ustr ''X'', ustr ''1''), (ustr ''X'', ustr ''2'')] (ustr ''X'')
          = Some (ustr ''2'')"
    by (simp add: flatten_headers_def)
qed

theorem flatten_headers_last_wins_witness:
  "ustr ''X'' \<notin> fst ` set ([] :: (pystr \<times> pystr) list)
   \<and> flatten_headers ([(ustr ''X'', ustr ''1'')] @ (ustr ''X'', ustr ''2'') # []) (ustr ''X'')
       = Some (ustr ''2'')"
  using flatten_headers_last_wins [of "ustr ''X''" "[]" "[(ustr ''X'', ustr ''1'')]" "ustr ''2''"]
  by simp

text \<open>
  Claim C10. In parsed mode a decoded value that is neither a dict nor a list is rendered
  by \<open>str\<close>, not by its JSON serialisation: \<open>true\<close> gives \<open>True\<close>, \<open>null\<close>
  gives \<open>None\<close>, a string comes without its quotes (\<open>"blue"\<close> gives \<open>blue\<close>), and the
  empty string gives the empty text, with no placeholder.
\<close>

theorem format_body_scalar_is_str:
  "format_body \<lparr>status_code = c, text' = t, json = Decoded (Atom a)\<rparr> False = Inr (str_scalar a)
   \<and> str_scalar (PyBool True) = ustr ''True'' \<and> dumps_scalar (PyBool True) = ustr ''true''
   \<and> str_scalar PyNone = ustr ''None'' \<and> dumps_scalar PyNone = ustr ''null''
   \<and> str_scalar (PyStr s) = s \<and> dumps_scalar (PyStr s) = [34] @ concat (map escape_char s) @ [34]
   \<and> format_body \<lparr>status_code = c, text' = [34] @ ustr ''blue'' @ [34],
         json = Decoded (Atom (PyStr (ustr ''blue'')))\<rparr> False = Inr (ustr ''blue'')
   \<and> format_body \<lparr>status_code = c, text' = [34, 34], json = Decoded (Atom (PyStr []))\<rparr> False
       = Inr []"
  by (simp add: format_body_def encode_str_def)

text \<open>
  Claim C8 says that the formatter's output never contains a newline. In raw mode the body
  \<open>a\nb\<close> is returned as it is.
\<close>

theorem format_body_newline_counterexample:
  "\<exists>out. format_body \<lparr>status_code = 200, text' = [97, 10, 98], json = ValueError\<rparr> True = Inr out
     \<and> newline \<in> set out"
  by (simp add: format_body_def or_else_def strip_def isspace_def newline_def)

text \<open>
  Claim C8, amended. In raw mode and on a body that is not JSON the formatter returns
  a text that is not empty, neither begins nor ends with white space, and contains
  a newline exactly when the trimmed body does. A dict or a list is rendered without any
  newline. Any other decoded value is rendered with a newline exactly when it is a string
  that contains one. When \<open>response.json()\<close> raises something else than a
  \<open>ValueError\<close>, the formatter returns nothing.
\<close>

theorem format_body_newlines:
  "(mode \<or> json r = ValueError \<longrightarrow>
      (\<exists>out. format_body r mode = Inr out
         \<and> (newline \<in> set out \<longleftrightarrow> newline \<in> set (strip (text' r)))
         \<and> out \<noteq> [] \<and> \<not> isspace (hd out) \<and> \<not> isspace (last out)))
   \<and> (\<not> mode \<and> json r = Decoded (JDict kvs) \<longrightarrow>
        (\<exists>out. format_body r mode = Inr out \<and> newline \<notin> set out))
   \<and> (\<not> mode \<and> json r = Decoded (JList vs) \<longrightarrow>
        (\<exists>out. format_body r mode = Inr out \<and> newline \<notin> set out))
   \<and> (\<not> mode \<and> json r = Decoded (Atom a) \<longrightarrow>
        (\<exists>out. format_body r mode = Inr out
           \<and> (newline \<in> set out \<longleftrightarrow> (\<exists>s. a = PyStr s \<and> newline \<in> set s))))
   \<and> (\<not> mode \<and> json r = OtherError e \<longrightarrow> format_body r mode = Inl e)"
proof (intro conjI impI)
  assume a: "mode \<or> json r = ValueError"
  define ph where "ph = (if mode then ustr ''<empty body>'' else ustr ''<non-JSON body>'')"
  define out where "out = (if strip (text' r) = [] then ph else strip (text' r))"
  have fb: "format_body r mode = Inr out"
    using a by (cases mode) (simp_all add: out_def ph_def format_body_raw format_body_not_json)
  have ph: "ph \<noteq> []" "newline \<notin> set ph" "\<not> isspace (hd ph)" "\<not> isspace (last ph)"
    by (simp_all add: ph_def placeholder_facts)
  have "newline \<in> set out \<longleftrightarrow> newline \<in> set (strip (text' r))"
    using ph by (simp add: out_def)
  moreover have "out \<noteq> []" using ph by (simp add: out_def)
  moreover have "\<not> isspace (hd out)" using ph strip_hd [of "text' r"] by (simp add: out_def)
  moreover have "\<not> isspace (last out)" using ph strip_last [of "text' r"] by (simp add: out_def)
  ultimately show "\<exists>out. format_body r mode = Inr out
         \<and> (newline \<in> set out \<longleftrightarrow> newline \<in> set (strip (text' r)))
         \<and> out \<noteq> [] \<and> \<not> isspace (hd out) \<and> \<not> isspace (last out)"
    using fb by blast
next
  assume "\<not> mode \<and> json r = Decoded (JDict kvs)"
  then show "\<exists>out. format_body r mode = Inr out \<and> newline \<notin> set out"
    using dumps_no_newline [of "JDict kvs"] by (simp add: format_body_json del: dumps.simps)
next
  assume "\<not> mode \<and> json r = Decoded (JList vs)"
  then show "\<exists>out. format_body r mode = Inr out \<and> newline \<notin> set out"
    using dumps_no_newline [of "JList vs"] by (simp add: format_body_json del: dumps.simps)
next
  assume "\<not> mode \<and> json r = Decoded (Atom a)"
  then show "\<exists>out. format_body r mode = Inr out
      \<and> (newline \<in> set out \<longleftrightarrow> (\<exists>s. a = PyStr s \<and> newline \<in> set s))"
    by (simp add: format_body_json str_scalar_newline)
next
  assume "\<not> mode \<and> json r = OtherError e"
  then show "format_body r mode = Inl e" by (simp add: format_body_error)
qed

theorem format_body_newlines_witness:
  "(True \<or> json \<lparr>status_code = 200, text' = [32, 97, 10, 98, 10], json = ValueError\<rparr> = ValueError)
   \<and> format_body \<lparr>status_code = 200, text' = [32, 97, 10, 98, 10], json = ValueError\<rparr> True
       = Inr [97, 10, 98]
   \<and> (\<not> False \<and> json \<lparr>status_code = 200, text' = [91, 10, 93], json = Decoded (JList [])\<rparr>
        = Decoded (JList []))
   \<and> (\<exists>out. format_body \<lparr>status_code = 200, text' = [91, 10, 93], json = Decoded (JList [])\<rparr> False
         = Inr out \<and> newline \<notin> set out)"
  using format_body_newlines [of True "\<lparr>status_code = 200, text' = [32, 97, 10, 98, 10], json = ValueError\<rparr>"]
    format_body_newlines [of False "\<lparr>status_code = 200, text' = [91, 10, 93], json = Decoded (JList [])\<rparr>" _ "[]"]
  by (simp add: format_body_def or_else_def strip_def isspace_def newline_def)

section \<open>One pass of the loop\<close>

lemma upto_snoc: "0 \<le> k \<Longrightarrow> [1..k + 1] = [1..k] @ [k + 1]"
  by (simp add: upto_rec2)

lemma tally_0: "tally w args 0 = \<lparr>total = 0, success = 0, failure = 0\<rparr>"
  by (simp add: tally_def)

lemma state_after_0: "state_after w args 0 = initial"
  by (simp add: state_after_def initial_def tally_0)

lemma tally_Suc:
  "0 \<le> k \<Longrightarrow> tally w args (k + 1) =
     \<lparr>total = k + 1,
      success = success (tally w args k) + (if is_returned (outcome w args (k + 1)) then 1 else 0),
      failure = failure (tally w args k) + (if is_raised (outcome w args (k + 1)) then 1 else 0)\<rparr>"
  by (simp add: tally_def upto_snoc)

lemma total_tally [simp]: "total (tally w args k) = k"
  by (simp add: tally_def)

lemma limit_reached_total:
  "total s = total s' \<Longrightarrow> limit_reached l s = limit_reached l s'"
  by (simp add: limit_reached_def split: option.splits)

lemma limit_reached_tally:
  "limit_reached (limit_of args) \<lparr>total = k, success = 0, failure = 0\<rparr> =
   limit_reached (limit_of args) (tally w args k)"
  by (rule limit_reached_total) simp

lemma sleeps_after_tally:
  "sleeps_after args k \<longleftrightarrow>
     \<not> limit_reached (limit_of args) (tally w args k) \<and> fpos (interval args)"
  unfolding sleeps_after_def limit_reached_tally [of args k w] by simp

lemma effects_Suc:
  "0 \<le> k \<Longrightarrow> effects (state_after w args (k + 1)) =
     effects (state_after w args k) @ pass_effects w args (k + 1)"
  by (simp add: state_after_def upto_snoc)

lemma state_after_Suc:
  "0 \<le> k \<Longrightarrow> state_after w args (k + 1) =
     \<lparr>stats = tally w args (k + 1),
      effects = effects (state_after w args k) @ pass_effects w args (k + 1)\<rparr>"
  using effects_Suc [of k w args] by (simp add: state_after_def)

lemma pause_step:
  assumes "stats st = tally w args k"
  shows "pause w args (limit_of args) k st =
     (if limit_reached (limit_of args) \<lparr>total = k, success = 0, failure = 0\<rparr> then Break st
      else if fpos (interval args) then
        (case sleep_error (interval args) of
           Some e \<Rightarrow> Abort e (st\<lparr>effects := effects st @ [Sleep (interval args)]\<rparr>)
         | None \<Rightarrow>
             if sleep_interrupted w k
             then Interrupt (st\<lparr>effects := effects st @ [Sleep (interval args)]\<rparr>)
             else Again (st\<lparr>effects := effects st @ [Sleep (interval args)]\<rparr>))
      else Again st)"
  by (simp add: pause_def assms limit_reached_tally [of args k w] emit_def Let_def)

lemma attempt_step:
  assumes k: "0 \<le> k"
  shows "attempt w args (flatten_headers (header args)) (limit_of args) (\<not> insecure args)
           (state_after w args k) =
     (case pass_stops w args (k + 1) of
        None \<Rightarrow> Again (state_after w args (k + 1))
      | Some Finished \<Rightarrow> Break (state_after w args (k + 1))
      | Some Interrupted \<Rightarrow> Interrupt (state_after w args (k + 1))
      | Some (Aborted e) \<Rightarrow> Abort e (state_after w args (k + 1)))"
proof -
  have req: "request_of args (flatten_headers (header args)) (\<not> insecure args) = the_request args"
    by (simp add: the_request_def)
  have st: "stats (state_after w args k) = tally w args k"
    by (simp add: state_after_def)
  have out: "session_get w (k + 1) (the_request args) = outcome w args (k + 1)"
    by (simp add: outcome_def)
  note next_state = state_after_Suc [OF k, of w args]
  show ?thesis
  proof (cases "outcome w args (k + 1)")
    case KeyboardInterrupt
    have "tally w args (k + 1) = (tally w args k)\<lparr>total := k + 1\<rparr>"
      using KeyboardInterrupt by (cases "tally w args k") (simp add: tally_Suc [OF k])
    then show ?thesis
      using KeyboardInterrupt
      by (simp add: attempt_def Let_def req st out write_stats_def emit_def next_state
          pass_effects_def pass_stops_def)
  next
    case (OtherException e)
    have "tally w args (k + 1) = (tally w args k)\<lparr>total := k + 1\<rparr>"
      using OtherException by (cases "tally w args k") (simp add: tally_Suc [OF k])
    then show ?thesis
      using OtherException
      by (simp add: attempt_def Let_def req st out write_stats_def emit_def next_state
          pass_effects_def pass_stops_def)
  next
    case (RequestException cls msg)
    have t: "tally w args (k + 1) =
        (tally w args k)\<lparr>total := k + 1, failure := failure (tally w args k) + 1\<rparr>"
      using RequestException by (cases "tally w args k") (simp add: tally_Suc [OF k])
    define st1 where "st1 =
      \<lparr>stats = tally w args (k + 1),
       effects = effects (state_after w args k) @
         [Wrote ((tally w args k)\<lparr>total := k + 1\<rparr>), Issued (the_request args),
          Wrote (tally w args (k + 1))]\<rparr>"
    define line where "line = error_line (k + 1) cls msg"
    define st2 where "st2 =
      \<lparr>stats = tally w args (k + 1),
       effects = effects (state_after w args k) @
         [Wrote ((tally w args k)\<lparr>total := k + 1\<rparr>), Issued (the_request args),
          Wrote (tally w args (k + 1)), Printed Stderr line]\<rparr>"
    have s2: "stats st2 = tally w args (k + 1)" by (simp add: st2_def)
    have a: "attempt w args (flatten_headers (header args)) (limit_of args) (\<not> insecure args)
           (state_after w args k) =
        (case print_error w Stderr line of
           Some e \<Rightarrow> Abort e st1
         | None \<Rightarrow> pause w args (limit_of args) (k + 1) st2)"
      using RequestException
      by (simp add: attempt_def Let_def req st out write_stats_def emit_def st1_def st2_def
          line_def t print_line_def split: option.splits)
    have le: "line_error w args (k + 1) = print_error w Stderr line"
      using RequestException by (simp add: line_error_def line_def)
    have al: "attempt_line w args (k + 1) = [Printed Stderr line]"
      using RequestException by (simp add: attempt_line_def line_def)
    show ?thesis
    proof (cases "print_error w Stderr line")
      case (Some e)
      then show ?thesis
        using RequestException
        by (simp add: a next_state pass_effects_def pass_stops_def le st1_def)
    next
      case None
      show ?thesis
        unfolding a pause_step [OF s2]
        using RequestException None
        by (simp add: next_state pass_effects_def pass_stops_def le al st2_def
            sleeps_after_def split: option.splits)
    qed
  next
    case (Returned r)
    have t: "tally w args (k + 1) =
        (tally w args k)\<lparr>total := k + 1, success := success (tally w args k) + 1\<rparr>"
      using Returned by (cases "tally w args k") (simp add: tally_Suc [OF k])
    define st1 where "st1 =
      \<lparr>stats = tally w args (k + 1),
       effects = effects (state_after w args k) @
         [Wrote ((tally w args k)\<lparr>total := k + 1\<rparr>), Issued (the_request args),
          Wrote (tally w args (k + 1))]\<rparr>"
    define line where "line = (\<lambda>body. success_line (k + 1) (status_code r)
        (latency (tick_start_at w (k + 1)) (tick_end_at w (k + 1))) body)"
    define st2 where "st2 = (\<lambda>body.
      \<lparr>stats = tally w args (k + 1),
       effects = effects (state_after w args k) @
         [Wrote ((tally w args k)\<lparr>total := k + 1\<rparr>), Issued (the_request args),
          Wrote (tally w args (k + 1)), Printed Stdout (line body)]\<rparr>)"
    have s2: "\<And>body. stats (st2 body) = tally w args (k + 1)" by (simp add: st2_def)
    have a: "attempt w args (flatten_headers (header args)) (limit_of args) (\<not> insecure args)
           (state_after w args k) =
        (case format_body r (raw args) of
           Inl e \<Rightarrow> Abort e st1
         | Inr body \<Rightarrow>
            (case print_error w Stdout (line body) of
               Some e \<Rightarrow> Abort e st1
             | None \<Rightarrow> pause w args (limit_of args) (k + 1) (st2 body)))"
      using Returned
      by (simp add: attempt_def Let_def req st out write_stats_def emit_def st1_def st2_def
          line_def t print_line_def split: option.splits sum.splits)
    show ?thesis
    proof (cases "format_body r (raw args)")
      case (Inl e)
      then show ?thesis
        using Returned
        by (simp add: a next_state pass_effects_def pass_stops_def line_error_def st1_def)
    next
      case (Inr body)
      have le: "line_error w args (k + 1) = print_error w Stdout (line body)"
        using Returned Inr by (simp add: line_error_def line_def)
      have al: "attempt_line w args (k + 1) = [Printed Stdout (line body)]"
        using Returned Inr by (simp add: attempt_line_def line_def)
      show ?thesis
      proof (cases "print_error w Stdout (line body)")
        case (Some e)
        then show ?thesis
          using Returned Inr
          by (simp add: a next_state pass_effects_def pass_stops_def le st1_def)
      next
        case None
        show ?thesis
          unfolding a pause_step [OF s2]
          using Returned Inr None
          by (simp add: next_state pass_effects_def pass_stops_def le al st2_def
              sleeps_after_def split: option.splits)
      qed
    qed
  qed
qed

section \<open>The loop\<close>

lemma not_running_reached:
  "\<not> running l s \<Longrightarrow> limit_reached l s"
  by (auto simp: running_def limit_reached_def split: option.splits)

lemma reached_not_running:
  "limit_reached l s \<Longrightarrow> \<not> running l s"
  by (auto simp: running_def limit_reached_def split: option.splits)

lemma pass_stops_None:
  assumes "pass_stops w args j = None"
  shows "completes w args j \<and> running (limit_of args) (tally w args j) \<and>
     (fpos (interval args) \<longrightarrow> sleep_error (interval args) = None \<and> \<not> sleep_interrupted w j)"
proof -
  have c: "completes w args j"
    using assms
    by (cases "outcome w args j")
       (simp_all add: pass_stops_def completes_def split: option.splits if_splits)
  then have le: "line_error w args j = None" by (simp add: completes_def)
  have nl: "\<not> limit_reached (limit_of args) \<lparr>total = j, success = 0, failure = 0\<rparr>"
    using assms le
    by (cases "outcome w args j") (simp_all add: pass_stops_def split: if_splits)
  then have r: "running (limit_of args) (tally w args j)"
    unfolding limit_reached_tally [of args j w] using not_running_reached by blast
  have "fpos (interval args) \<longrightarrow> sleep_error (interval args) = None \<and> \<not> sleep_interrupted w j"
    using assms le nl
    by (cases "outcome w args j")
       (simp_all add: pass_stops_def split: if_splits option.splits)
  with c r show ?thesis by blast
qed

lemma pass_stops_Finished:
  assumes "pass_stops w args j = Some Finished"
  shows "completes w args j \<and> limit_reached (limit_of args) (tally w args j)"
proof -
  have c: "completes w args j"
    using assms
    by (cases "outcome w args j")
       (simp_all add: pass_stops_def completes_def split: option.splits if_splits)
  then have le: "line_error w args j = None" by (simp add: completes_def)
  have "limit_reached (limit_of args) \<lparr>total = j, success = 0, failure = 0\<rparr>"
    using assms le
    by (cases "outcome w args j")
       (simp_all add: pass_stops_def split: if_splits option.splits)
  with c show ?thesis unfolding limit_reached_tally [of args j w] by simp
qed

lemma run_ends_step:
  assumes k: "0 \<le> k" and r: "running (limit_of args) (tally w args k)"
    and ns: "pass_stops w args (k + 1) = None"
    and e: "run_ends w args (k + 1) n how"
  shows "run_ends w args k n how"
proof -
  have c: "k + 1 \<le> n" using e by (simp add: run_ends_def)
  have r1: "running (limit_of args) (tally w args (k + 1))"
    using pass_stops_None [OF ns] by simp
  have lt: "k + 1 < n"
  proof (rule ccontr)
    assume "\<not> k + 1 < n"
    with c have "n = k + 1" by simp
    with e r1 show False by (simp add: run_ends_def)
  qed
  have a: "\<And>j. k < j \<and> j < n \<Longrightarrow> pass_stops w args j = None"
  proof -
    fix j assume j: "k < j \<and> j < n"
    show "pass_stops w args j = None"
    proof (cases "j = k + 1")
      case True with ns show ?thesis by simp
    next
      case False
      with j have "k + 1 < j \<and> j < n" by simp
      with e show ?thesis by (simp add: run_ends_def)
    qed
  qed
  have b: "\<And>j. k \<le> j \<and> j < n \<Longrightarrow> running (limit_of args) (tally w args j)"
  proof -
    fix j assume j: "k \<le> j \<and> j < n"
    show "running (limit_of args) (tally w args j)"
    proof (cases "j = k")
      case True with r show ?thesis by simp
    next
      case False
      with j have "k + 1 \<le> j \<and> j < n" by simp
      with e show ?thesis by (simp add: run_ends_def)
    qed
  qed
  have d: "pass_stops w args n = Some how"
    using e lt by (simp add: run_ends_def)
  show ?thesis
    unfolding run_ends_def using a b c d lt by auto
qed

lemma run_ends_one:
  assumes "running (limit_of args) (tally w args k)" and "pass_stops w args (k + 1) = Some how"
  shows "run_ends w args k (k + 1) how"
  using assms by (auto simp: run_ends_def)

lemma poll_loop_ends:
  assumes "poll_loop w0 args0 hs0 l0 v0 st0 = Some y0"
  shows "\<forall>k. hs0 = flatten_headers (header args0) \<and> l0 = limit_of args0 \<and>
        v0 = (\<not> insecure args0) \<and> st0 = state_after w0 args0 k \<and> 0 \<le> k \<longrightarrow>
        (\<exists>n. fst y0 = state_after w0 args0 n \<and> run_ends w0 args0 k n (snd y0))"
proof (rule poll_loop.raw_induct [where P = "\<lambda>w args hs l v st y.
      \<forall>k. hs = flatten_headers (header args) \<and> l = limit_of args \<and> v = (\<not> insecure args) \<and>
        st = state_after w args k \<and> 0 \<le> k \<longrightarrow>
        (\<exists>n. fst y = state_after w args n \<and> run_ends w args k n (snd y))", OF _ assms])
  fix poll_loop' :: "World \<Rightarrow> Args \<Rightarrow> (pystr \<rightharpoonup> pystr) \<Rightarrow> int option \<Rightarrow> bool \<Rightarrow> State
     \<Rightarrow> (State \<times> ending) option"
  fix w args hs l v st y
  assume IH: "\<And>w args hs l v st y. poll_loop' w args hs l v st = Some y \<Longrightarrow>
      \<forall>k. hs = flatten_headers (header args) \<and> l = limit_of args \<and> v = (\<not> insecure args) \<and>
        st = state_after w args k \<and> 0 \<le> k \<longrightarrow>
        (\<exists>n. fst y = state_after w args n \<and> run_ends w args k n (snd y))"
  assume body: "(if running l (stats st) then
        (case attempt w args hs l v st of
           Again st' \<Rightarrow> poll_loop' w args hs l v st'
         | Break st' \<Rightarrow> Some (st', Finished)
         | Interrupt st' \<Rightarrow> Some (st', Interrupted)
         | Abort e st' \<Rightarrow> Some (st', Aborted e))
      else Some (st, Finished)) = Some y"
  show "\<forall>k. hs = flatten_headers (header args) \<and> l = limit_of args \<and> v = (\<not> insecure args) \<and>
        st = state_after w args k \<and> 0 \<le> k \<longrightarrow>
        (\<exists>n. fst y = state_after w args n \<and> run_ends w args k n (snd y))"
  proof (intro allI impI)
    fix k
    assume a: "hs = flatten_headers (header args) \<and> l = limit_of args \<and> v = (\<not> insecure args) \<and>
        st = state_after w args k \<and> 0 \<le> k"
    then have k: "0 \<le> k" and st: "st = state_after w args k" by simp_all
    have stats: "stats st = tally w args k" by (simp add: st state_after_def)
    show "\<exists>n. fst y = state_after w args n \<and> run_ends w args k n (snd y)"
    proof (cases "running (limit_of args) (tally w args k)")
      case False
      with body a stats have "y = (st, Finished)" by simp
      moreover have "run_ends w args k k Finished"
        using False by (auto simp: run_ends_def)
      ultimately show ?thesis using st by auto
    next
      case True
      note step = attempt_step [OF k, of w args]
      show ?thesis
      proof (cases "pass_stops w args (k + 1)")
        case None
        with body a stats True step
        have "poll_loop' w args hs l v (state_after w args (k + 1)) = Some y" by simp
        with IH a k
        obtain n where n: "fst y = state_after w args n" "run_ends w args (k + 1) n (snd y)"
          by fastforce
        with k True None have "run_ends w args k n (snd y)"
          by (auto intro: run_ends_step)
        with n show ?thesis by auto
      next
        case (Some how)
        with body a stats True step
        have "y = (state_after w args (k + 1), how)"
          by (cases how) auto
        moreover have "run_ends w args k (k + 1) how"
          using True Some by (rule run_ends_one)
        ultimately show ?thesis by auto
      qed
    qed
  qed
qed

lemma run_ends_0:
  assumes "run w args = Some (st, how)"
  shows "\<exists>n. st = state_after w args n \<and> run_ends w args 0 n how"
  using poll_loop_ends [of w args "flatten_headers (header args)" "limit_of args"
      "\<not> insecure args" initial "(st, how)"] assms
  by (simp add: run_def state_after_0)

lemma run_shape:
  assumes "run w args = Some (st, how)"
  shows "\<exists>m. st = state_after w args (int m) \<and> run_ends w args 0 (int m) how"
proof -
  from run_ends_0 [OF assms] obtain n where n: "st = state_after w args n" "run_ends w args 0 n how"
    by blast
  then have "0 \<le> n" by (simp add: run_ends_def)
  then have "n = int (nat n)" by simp
  with n show ?thesis by metis
qed

section \<open>Termination under a limit\<close>

lemma poll_loop_total:
  assumes lim: "limit_of args = Some N"
  shows "d = nat (N - k) \<Longrightarrow> 0 \<le> k \<Longrightarrow>
     \<exists>y. poll_loop w args (flatten_headers (header args)) (limit_of args) (\<not> insecure args)
       (state_after w args k) = Some y"
proof (induction d arbitrary: k rule: less_induct)
  case (less d)
  note k = \<open>0 \<le> k\<close>
  show ?case
  proof (cases "running (limit_of args) (stats (state_after w args k))")
    case False
    then show ?thesis by (subst poll_loop.simps) simp
  next
    case True
    then have kN: "k < N" by (simp add: lim running_def state_after_def)
    note step = attempt_step [OF k, of w args]
    show ?thesis
    proof (cases "pass_stops w args (k + 1)")
      case (Some how)
      with True step show ?thesis
        by (subst poll_loop.simps) (cases how; simp)
    next
      case None
      with True step
      have eq: "poll_loop w args (flatten_headers (header args)) (limit_of args) (\<not> insecure args)
              (state_after w args k) =
            poll_loop w args (flatten_headers (header args)) (limit_of args) (\<not> insecure args)
              (state_after w args (k + 1))"
        by (subst poll_loop.simps) simp
      have "nat (N - (k + 1)) < d" using less.prems kN by simp
      from less.IH [OF this refl] k show ?thesis unfolding eq by simp
    qed
  qed
qed

lemma run_total:
  assumes "count args \<noteq> 0"
  shows "\<exists>st how. run w args = Some (st, how)"
proof -
  have lim: "limit_of args = Some (count args)" using assms by (simp add: limit_of_def)
  from poll_loop_total [OF lim refl, of 0 w] show ?thesis
    by (simp add: run_def state_after_0)
qed

section \<open>Counting\<close>

lemma outcome_kinds:
  "(if is_returned x then 1 else 0) + (if is_raised x then 1 else (0::int)) =
     (if is_returned x \<or> is_raised x then 1 else 0)"
  by (cases x) simp_all


lemma tally_mono_step:
  assumes "0 \<le> k"
  shows "success (tally w args k) \<le> success (tally w args (k + 1)) \<and>
         failure (tally w args k) \<le> failure (tally w args (k + 1))"
  by (simp add: tally_Suc [OF assms])

lemma tally_sum_step:
  assumes "0 \<le> k"
  shows "success (tally w args (k + 1)) + failure (tally w args (k + 1)) =
         success (tally w args k) + failure (tally w args k) +
         (if is_returned (outcome w args (k + 1)) \<or> is_raised (outcome w args (k + 1))
          then 1 else 0)"
  using outcome_kinds [of "outcome w args (k + 1)"]
  by (simp add: tally_Suc [OF assms])

lemma int_Suc: "int (Suc m) = int m + 1"
  by simp


lemma tally_sum_eq:
  "(\<forall>j. 1 \<le> j \<and> j \<le> int m \<longrightarrow> is_returned (outcome w args j) \<or> is_raised (outcome w args j)) \<Longrightarrow>
   success (tally w args (int m)) + failure (tally w args (int m)) = int m"
proof (induction m)
  case 0
  show ?case by (simp add: tally_0)
next
  case (Suc m)
  from Suc.prems
  have "is_returned (outcome w args (int m + 1)) \<or> is_raised (outcome w args (int m + 1))"
    by simp
  moreover from Suc have "success (tally w args (int m)) + failure (tally w args (int m)) = int m"
    by simp
  ultimately show ?case unfolding int_Suc using tally_sum_step [of "int m" w args] by simp
qed

lemma run_ends_early_complete:
  assumes "run_ends w args 0 n how" and "1 \<le> j" and "j < n"
  shows "completes w args j \<and> pass_stops w args j = None"
proof -
  from assms have "pass_stops w args j = None" by (simp add: run_ends_def)
  with pass_stops_None [OF this] show ?thesis by simp
qed

lemma run_ends_last:
  assumes "run_ends w args 0 n how" and "1 \<le> n"
  shows "pass_stops w args n = Some how"
  using assms by (simp add: run_ends_def)

lemma run_ends_none:
  assumes "run_ends w args 0 0 how"
  shows "how = Finished \<and> count args < 0"
  using assms
  by (auto simp: run_ends_def running_def limit_of_def tally_0 split: if_splits)

lemma run_sum:
  assumes "run_ends w args 0 (int m) how"
  shows "success (tally w args (int m)) + failure (tally w args (int m)) =
     (if 0 < m \<and> \<not> (is_returned (outcome w args (int m)) \<or> is_raised (outcome w args (int m)))
      then int m - 1 else int m)"
proof (cases m)
  case 0
  then show ?thesis by (simp add: tally_0)
next
  case (Suc m')
  have early: "\<forall>j. 1 \<le> j \<and> j \<le> int m' \<longrightarrow>
      is_returned (outcome w args j) \<or> is_raised (outcome w args j)"
    using run_ends_early_complete [OF assms] Suc by (simp add: completes_def)
  have prev: "success (tally w args (int m')) + failure (tally w args (int m')) = int m'"
    using early by (rule tally_sum_eq)
  have eq: "int m = int m' + 1" using Suc by simp
  have pos: "0 < m" using Suc by simp
  show ?thesis
    unfolding eq using prev tally_sum_step [of "int m'" w args] pos by simp
qed

section \<open>The effects of one pass\<close>

lemma decimal_snoc: "decimal (s @ [c]) = 10 * decimal s + (c - 48)"
  by (simp add: decimal_def)

lemma decimal_digits: "decimal (digits n) = n"
proof (induction n rule: digits.induct)
  case (1 n)
  show ?case
  proof (cases "n < 10")
    case True
    then show ?thesis by (simp add: digits.simps [of n] decimal_def)
  next
    case False
    with "1.IH" have "decimal (digits (n div 10)) = n div 10" by simp
    with False show ?thesis by (simp add: digits.simps [of n] decimal_snoc)
  qed
qed

lemma decimal_zeros: "decimal (replicate j 48 @ s) = decimal s"
proof -
  have "foldl (\<lambda>a c. 10 * a + (c - 48)) 0 (replicate j 48) = (0::nat)"
    by (induction j) simp_all
  then show ?thesis by (simp add: decimal_def)
qed

lemma decimal_fmt_04: "0 \<le> k \<Longrightarrow> decimal (fmt_04 k) = nat k"
  by (simp add: fmt_04_def zfill_def decimal_zeros decimal_digits)

lemma fmt_04_chars: "0 \<le> k \<Longrightarrow> c \<in> set (fmt_04 k) \<Longrightarrow> 48 \<le> c \<and> c \<le> 57"
  by (auto simp: fmt_04_def zfill_def dest: digits_range)



lemma seq_no_bracketed:
  assumes "0 \<le> k"
  shows "seq_no (ustr ''['' @ fmt_04 k @ 93 # rest) = nat k"
proof -
  have "\<forall>c \<in> set (fmt_04 k). c \<noteq> 93" using fmt_04_chars [OF assms] by fastforce
  then have "takeWhile (\<lambda>c. c \<noteq> 93) (fmt_04 k @ 93 # rest) = fmt_04 k"
    by (simp add: takeWhile_append2)
  then show ?thesis using assms by (simp add: seq_no_def ustr_def decimal_fmt_04)
qed

lemma seq_no_success_line:
  "0 \<le> k \<Longrightarrow> seq_no (success_line k status lat body) = nat k"
  using seq_no_bracketed [of k] by (simp add: success_line_def ustr_def)

lemma seq_no_error_line:
  "0 \<le> k \<Longrightarrow> seq_no (error_line k cls msg) = nat k"
  using seq_no_bracketed [of k] by (simp add: error_line_def ustr_def)


lemma printed_append: "printed (a @ b) = printed a @ printed b"
  by (simp add: printed_def)

lemma slept_append: "slept (a @ b) = slept a @ slept b"
  by (simp add: slept_def)

lemma issued_append: "issued (a @ b) = issued a @ issued b"
  by (simp add: issued_def)

lemma projections_Cons:
  "snapshots (e # es) = (case e of Wrote s \<Rightarrow> [s] | _ \<Rightarrow> []) @ snapshots es"
  "printed (e # es) = (case e of Printed str line \<Rightarrow> [(str, line)] | _ \<Rightarrow> []) @ printed es"
  "slept (e # es) = (case e of Sleep d \<Rightarrow> [d] | _ \<Rightarrow> []) @ slept es"
  "issued (e # es) = (case e of Issued r \<Rightarrow> [r] | _ \<Rightarrow> []) @ issued es"
  by (simp_all add: snapshots_def printed_def slept_def issued_def)

lemma projections_Nil: "snapshots [] = []" "printed [] = []" "slept [] = []" "issued [] = []"
  by (simp_all add: snapshots_def printed_def slept_def issued_def)

lemma attempt_line_completes:
  assumes "completes w args k"
  shows "\<exists>str line. attempt_line w args k = [Printed str line] \<and> print_error w str line = None \<and>
     (\<exists>rest. line = ustr ''['' @ fmt_04 k @ 93 # rest)"
proof (cases "outcome w args k")
  case (Returned r)
  with assms obtain body where b: "format_body r (raw args) = Inr body"
    by (cases "format_body r (raw args)") (simp_all add: completes_def line_error_def)
  with assms Returned show ?thesis
    by (simp add: completes_def line_error_def attempt_line_def success_line_def ustr_def)
next
  case (RequestException cls msg)
  with assms show ?thesis
    by (simp add: completes_def line_error_def attempt_line_def error_line_def ustr_def)
next
  case KeyboardInterrupt
  with assms show ?thesis by (simp add: completes_def)
next
  case (OtherException e)
  with assms show ?thesis by (simp add: completes_def)
qed

lemma attempt_line_uncounted:
  "\<not> (is_returned (outcome w args k) \<or> is_raised (outcome w args k)) \<Longrightarrow>
   attempt_line w args k = []"
  by (cases "outcome w args k") (simp_all add: attempt_line_def)

lemma printed_pass:
  "printed (pass_effects w args k) =
     (if completes w args k then printed (attempt_line w args k) else [])"
  using attempt_line_uncounted [of w args k]
  by (auto simp: pass_effects_def printed_append completes_def
      projections_Cons projections_Nil)

lemma slept_attempt_line: "slept (attempt_line w args k) = []"
  by (simp add: attempt_line_def projections_Cons projections_Nil
      split: get_outcome.splits sum.splits)

lemma issued_attempt_line: "issued (attempt_line w args k) = []"
  by (simp add: attempt_line_def projections_Cons projections_Nil
      split: get_outcome.splits sum.splits)


lemma slept_pass:
  "slept (pass_effects w args k) =
     (if completes w args k \<and> sleeps_after args k then [interval args] else [])"
  by (simp add: pass_effects_def slept_append slept_attempt_line completes_def
      projections_Cons projections_Nil)

lemma issued_pass: "issued (pass_effects w args k) = [the_request args]"
  by (simp add: pass_effects_def issued_append issued_attempt_line
      projections_Cons projections_Nil)


section \<open>The effects of a whole run\<close>

lemma upto_int_Suc: "[1..int m + 1] = [1..int m] @ [int m + 1]"
  by (rule upto_snoc) simp

lemma effects_after_Suc:
  "effects (state_after w args (int m + 1)) =
     effects (state_after w args (int m)) @ pass_effects w args (int m + 1)"
  by (rule effects_Suc) simp

lemma effects_after_0: "effects (state_after w args 0) = []"
  by (simp add: state_after_def)

lemma slept_after:
  "slept (effects (state_after w args (int m))) =
     concat (map (\<lambda>k. if completes w args k \<and> sleeps_after args k
                       then [interval args] else []) [1..int m])"
proof (induction m)
  case 0
  show ?case by (simp add: effects_after_0 slept_def)
next
  case (Suc m)
  show ?case
    unfolding int_Suc effects_after_Suc slept_append Suc slept_pass upto_int_Suc
    by simp
qed

lemma issued_after:
  "issued (effects (state_after w args (int m))) = replicate m (the_request args)"
proof (induction m)
  case 0
  show ?case by (simp add: effects_after_0 issued_def)
next
  case (Suc m)
  show ?case
    unfolding int_Suc effects_after_Suc issued_append Suc issued_pass
    by (simp add: replicate_append_same)
qed

lemma seq_no_attempt_line:
  assumes "0 \<le> k" and "completes w args k"
  shows "map (\<lambda>p. seq_no (snd p)) (printed (attempt_line w args k)) = [nat k]"
proof -
  from attempt_line_completes [OF assms(2)] obtain str line rest
    where "attempt_line w args k = [Printed str line]"
      and "line = ustr ''['' @ fmt_04 k @ 93 # rest"
    by blast
  then show ?thesis
    using seq_no_bracketed [OF assms(1), of rest] by (simp add: printed_def)
qed

lemma seq_no_after:
  "(\<forall>j. 1 \<le> j \<and> j \<le> int m \<longrightarrow> completes w args j) \<Longrightarrow>
   map (\<lambda>p. seq_no (snd p)) (printed (effects (state_after w args (int m)))) = map nat [1..int m]"
proof (induction m)
  case 0
  show ?case by (simp add: effects_after_0 printed_def)
next
  case (Suc m)
  from Suc.prems have c: "completes w args (int m + 1)" by simp
  from Suc have IH: "map (\<lambda>p. seq_no (snd p)) (printed (effects (state_after w args (int m)))) =
      map nat [1..int m]" by simp
  have "map (\<lambda>p. seq_no (snd p)) (printed (attempt_line w args (int m + 1))) = [nat (int m + 1)]"
    using c by (intro seq_no_attempt_line) simp_all
  then show ?case
    unfolding int_Suc effects_after_Suc printed_append printed_pass map_append IH upto_int_Suc
    using c by simp
qed








section \<open>How a run ends\<close>

lemma pass_stops_interrupt:
  "outcome w args k = KeyboardInterrupt \<Longrightarrow> pass_stops w args k = Some Interrupted"
  by (simp add: pass_stops_def)

lemma pass_stops_other:
  "outcome w args k = OtherException e \<Longrightarrow> pass_stops w args k = Some (Aborted e)"
  by (simp add: pass_stops_def)

lemma line_error_counted:
  "line_error w args k = Some e \<Longrightarrow>
   is_returned (outcome w args k) \<or> is_raised (outcome w args k)"
  by (cases "outcome w args k") (simp_all add: line_error_def)

lemma pass_stops_line_error:
  "line_error w args k = Some e \<Longrightarrow> pass_stops w args k = Some (Aborted e)"
  by (cases "outcome w args k") (simp_all add: pass_stops_def line_error_def)

lemma pass_stops_completes:
  "completes w args k \<Longrightarrow>
   pass_stops w args k =
     (if limit_reached (limit_of args) \<lparr>total = k, success = 0, failure = 0\<rparr> then Some Finished
      else if fpos (interval args) then
        (case sleep_error (interval args) of
           Some e \<Rightarrow> Some (Aborted e)
         | None \<Rightarrow> if sleep_interrupted w k then Some Interrupted else None)
      else None)"
  by (cases "outcome w args k") (simp_all add: pass_stops_def completes_def)

lemma pass_cases:
  obtains (interrupt) "outcome w args k = KeyboardInterrupt"
  | (other) e where "outcome w args k = OtherException e"
  | (line) e where "is_returned (outcome w args k) \<or> is_raised (outcome w args k)"
      and "line_error w args k = Some e"
  | (complete) "completes w args k"
proof (cases "outcome w args k")
  case KeyboardInterrupt
  then show ?thesis by (rule interrupt)
next
  case (OtherException e)
  then show ?thesis by (rule other)
next
  case (Returned r)
  then have c: "is_returned (outcome w args k) \<or> is_raised (outcome w args k)" by simp
  show ?thesis
  proof (cases "line_error w args k")
    case None
    with c show ?thesis by (intro complete) (simp add: completes_def)
  next
    case (Some e)
    with c show ?thesis by (intro line)
  qed
next
  case (RequestException cls msg)
  then have c: "is_returned (outcome w args k) \<or> is_raised (outcome w args k)" by simp
  show ?thesis
  proof (cases "line_error w args k")
    case None
    with c show ?thesis by (intro complete) (simp add: completes_def)
  next
    case (Some e)
    with c show ?thesis by (intro line)
  qed
qed

lemma interrupted_in_iff:
  "interrupted_in w args k \<longleftrightarrow>
     outcome w args k = KeyboardInterrupt \<or>
     (completes w args k \<and> sleeps_after args k \<and> sleep_error (interval args) = None \<and>
      sleep_interrupted w k)"
proof (cases rule: pass_cases [of w args k])
  case interrupt
  then show ?thesis by (simp add: interrupted_in_def pass_stops_interrupt)
next
  case (other e)
  then show ?thesis by (simp add: interrupted_in_def pass_stops_other completes_def)
next
  case (line e)
  then show ?thesis
    by (auto simp: interrupted_in_def pass_stops_line_error completes_def)
next
  case complete
  then have "outcome w args k \<noteq> KeyboardInterrupt" by (auto simp: completes_def)
  with complete show ?thesis
    by (simp add: interrupted_in_def pass_stops_completes sleeps_after_def split: option.splits)
qed

lemma aborted_in_iff:
  "aborted_in w args k \<longleftrightarrow>
     (\<exists>e. outcome w args k = OtherException e) \<or>
     line_error w args k \<noteq> None \<or>
     (completes w args k \<and> sleeps_after args k \<and> sleep_error (interval args) \<noteq> None)"
proof (cases rule: pass_cases [of w args k])
  case interrupt
  then show ?thesis
    by (simp add: aborted_in_def pass_stops_interrupt completes_def line_error_def)
next
  case (other e)
  then show ?thesis by (simp add: aborted_in_def pass_stops_other)
next
  case (line e)
  then show ?thesis by (simp add: aborted_in_def pass_stops_line_error)
next
  case complete
  then have "\<forall>e. outcome w args k \<noteq> OtherException e" "line_error w args k = None"
    by (auto simp: completes_def)
  with complete show ?thesis
    by (simp add: aborted_in_def pass_stops_completes sleeps_after_def split: option.splits)
qed

lemma run_one:
  assumes "running (limit_of args) (tally w args 0)" and "pass_stops w args 1 = Some how"
  shows "run w args = Some (state_after w args 1, how)"
proof -
  have r: "running (limit_of args) (stats (state_after w args 0))"
    using assms(1) by (simp add: state_after_def)
  have "attempt w args (flatten_headers (header args)) (limit_of args) (\<not> insecure args)
      (state_after w args 0) =
    (case how of Finished \<Rightarrow> Break (state_after w args 1)
     | Interrupted \<Rightarrow> Interrupt (state_after w args 1)
     | Aborted e \<Rightarrow> Abort e (state_after w args 1))"
    using attempt_step [of 0 w args] assms(2) by (cases how) simp_all
  with r show ?thesis
    unfolding run_def state_after_0 [of w args, symmetric]
    by (subst poll_loop.simps) (cases how; simp)
qed



lemma run_last_stop:
  assumes "run w args = Some (st, how)" and "0 < total (stats st)"
  shows "pass_stops w args (total (stats st)) = Some how"
proof -
  from run_shape [OF assms(1)] obtain m
    where st: "st = state_after w args (int m)" and e: "run_ends w args 0 (int m) how"
    by blast
  have tot: "total (stats st) = int m" by (simp add: st state_after_def)
  with run_ends_last [OF e] assms(2) show ?thesis by simp
qed

lemma run_none_made:
  assumes "run w args = Some (st, how)" and "total (stats st) = 0"
  shows "how = Finished \<and> count args < 0 \<and> st = initial"
proof -
  from run_shape [OF assms(1)] obtain m
    where st: "st = state_after w args (int m)" and e: "run_ends w args 0 (int m) how"
    by blast
  have "int m = 0" using assms(2) by (simp add: st state_after_def)
  with e st run_ends_none [of w args how] show ?thesis by (simp add: state_after_0)
qed

lemma run_bounds:
  assumes "run w args = Some (st, how)" and "0 < count args"
  shows "0 < total (stats st) \<and> total (stats st) \<le> count args \<and>
     (how = Finished \<longleftrightarrow> completes w args (total (stats st)) \<and> total (stats st) = count args)"
proof -
  from run_shape [OF assms(1)] obtain m
    where st: "st = state_after w args (int m)" and e: "run_ends w args 0 (int m) how"
    by blast
  have lim: "limit_of args = Some (count args)" using assms(2) by (simp add: limit_of_def)
  have tot: "total (stats st) = int m" by (simp add: st state_after_def)
  have pos: "0 < m"
  proof (rule ccontr)
    assume "\<not> 0 < m"
    then have "total (stats st) = 0" by (simp add: tot)
    from run_none_made [OF assms(1) this] assms(2) show False by simp
  qed
  then obtain m' where m': "m = Suc m'" by (cases m) auto
  with e have "running (limit_of args) (tally w args (int m'))"
    by (simp add: run_ends_def)
  then have le: "int m \<le> count args" using m' by (simp add: lim running_def)
  have last: "pass_stops w args (int m) = Some how"
    using run_ends_last [OF e] pos by simp
  have "how = Finished \<longleftrightarrow> completes w args (int m) \<and> int m = count args"
  proof
    assume "how = Finished"
    with last pass_stops_Finished [of w args "int m"]
    have "completes w args (int m)" "limit_reached (limit_of args) (tally w args (int m))"
      by simp_all
    with le show "completes w args (int m) \<and> int m = count args"
      by (simp add: lim limit_reached_def)
  next
    assume a: "completes w args (int m) \<and> int m = count args"
    then have c: "completes w args (int m)" and eq: "int m = count args" by blast+
    have lr: "limit_reached (limit_of args) \<lparr>total = int m, success = 0, failure = 0\<rparr>"
      unfolding eq by (simp add: lim limit_reached_def)
    have "pass_stops w args (int m) = Some Finished"
      unfolding pass_stops_completes [OF c] using lr by simp
    with last show "how = Finished" by simp
  qed
  with pos le show ?thesis by (simp add: tot)
qed

lemma run_completes:
  assumes "0 < count args"
    and "\<forall>j. 1 \<le> j \<and> j \<le> count args \<longrightarrow> \<not> interrupted_in w args j \<and> \<not> aborted_in w args j"
  shows "run w args = Some (state_after w args (count args), Finished)"
proof -
  from assms(1) have "count args \<noteq> 0" by simp
  from run_total [OF this, of w] obtain st how where r: "run w args = Some (st, how)" by blast
  from run_shape [OF r] obtain m where st: "st = state_after w args (int m)" by blast
  have tot: "total (stats st) = int m" by (simp add: st state_after_def)
  note b = run_bounds [OF r assms(1)]
  have last: "pass_stops w args (int m) = Some how"
    using run_last_stop [OF r] b by (simp add: tot)
  from b assms(2) have "\<not> interrupted_in w args (int m) \<and> \<not> aborted_in w args (int m)"
    by (simp add: tot)
  with last have "how = Finished"
    by (cases how) (simp_all add: interrupted_in_def aborted_in_def)
  with b have "int m = count args" by (simp add: tot)
  with r st \<open>how = Finished\<close> show ?thesis by simp
qed

section \<open>The sample runs evaluated\<close>




lemma demo_sleep_error: "sleep_error (interval demo_args) = None"
  by (simp add: demo_args_def float_of_nat_def round64_def Let_def bitlen.simps)

lemma demo_interval: "fpos (interval demo_args)"
  by (simp add: demo_args_def)

lemma long_sleep_error: "sleep_error (interval long_args) = Some (ustr ''OverflowError'')"
  by (simp add: long_args_def demo_args_def float_of_nat_def round64_def Let_def bitlen.simps
      rne_div_def)

lemma long_interval: "fpos (interval long_args)"
  by (simp add: long_args_def demo_args_def)

lemma upto_1_1: "[1..1::int] = [1]"
  by (simp add: upto_rec1)

lemma upto_1_2: "[1..2::int] = [1, 2]"
  by (simp add: upto_rec1)


lemma demo_outcome:
  "outcome demo_world demo_args k =
     (if k = 1 then Returned demo_response
      else RequestException (ustr ''ConnectTimeout'') (ustr ''timed out''))"
  by (simp add: outcome_def demo_world_def)

lemma demo_body: "format_body demo_response False = Inr (ustr ''[1,2]'')"
  by (simp add: format_body_def demo_response_def str_int_def digits.simps ustr_def)


lemma demo_fields:
  "raw demo_args = False" "count demo_args = 2" "limit_of demo_args = Some 2"
  "print_error demo_world = (\<lambda>str line. None)" "sleep_interrupted demo_world = (\<lambda>k. False)"
  "tick_start_at demo_world = (\<lambda>k. Float False 2 0)"
  "tick_end_at demo_world = (\<lambda>k. Float False 4121 (- 11))"
  "exit_flush_fails demo_world = False"
  by (simp_all add: demo_args_def demo_world_def limit_of_def)

lemma demo_line_error: "line_error demo_world demo_args k = None"
  by (simp add: line_error_def demo_outcome demo_fields demo_body)

lemma demo_completes: "completes demo_world demo_args k"
  by (simp add: completes_def demo_outcome demo_line_error)

lemma demo_undisturbed:
  "\<not> interrupted_in demo_world demo_args j \<and> \<not> aborted_in demo_world demo_args j"
  by (simp add: interrupted_in_iff aborted_in_iff demo_outcome demo_line_error demo_fields
      demo_sleep_error demo_interval)

lemma demo_run: "run demo_world demo_args = Some (state_after demo_world demo_args 2, Finished)"
  using run_completes [of demo_args demo_world] demo_undisturbed
  by (simp add: demo_fields)


lemma demo_tally: "tally demo_world demo_args 2 = \<lparr>total = 2, success = 1, failure = 1\<rparr>"
  by (simp add: tally_def demo_outcome upto_1_2)






lemma demo_effects:
  "effects (state_after demo_world demo_args 2) =
     pass_effects demo_world demo_args 1 @ pass_effects demo_world demo_args 2"
  by (simp add: state_after_def upto_1_2)

lemma state_after_1:
  "state_after w args 1 = \<lparr>stats = tally w args 1, effects = pass_effects w args 1\<rparr>"
  by (simp add: state_after_def upto_1_1)


lemma running_first: "0 < count args \<Longrightarrow> running (limit_of args) (tally w args 0)"
  by (simp add: running_def limit_of_def)




lemma long_outcome:
  "outcome demo_world long_args k =
     (if k = 1 then Returned demo_response
      else RequestException (ustr ''ConnectTimeout'') (ustr ''timed out''))"
  by (simp add: outcome_def demo_world_def)

lemma long_fields:
  "raw long_args = False" "count long_args = 2" "limit_of long_args = Some 2"
  by (simp_all add: long_args_def demo_args_def limit_of_def)

lemma long_completes: "completes demo_world long_args k"
  by (simp add: completes_def line_error_def long_outcome long_fields demo_fields demo_body)

lemma long_run:
  "run demo_world long_args =
     Some (state_after demo_world long_args 1, Aborted (ustr ''OverflowError''))"
proof -
  have r: "running (limit_of long_args) (tally demo_world long_args 0)"
    by (rule running_first) (simp add: long_fields)
  have "pass_stops demo_world long_args 1 = Some (Aborted (ustr ''OverflowError''))"
    by (simp add: pass_stops_completes [OF long_completes] long_fields limit_reached_def
        long_sleep_error long_interval)
  with r show ?thesis by (rule run_one)
qed

lemma long_tally_1: "tally demo_world long_args 1 = \<lparr>total = 1, success = 1, failure = 0\<rparr>"
  by (simp add: tally_def long_outcome upto_1_1)

lemma nested_outcome: "outcome nested_world single_args k = Returned nested_response"
  by (simp add: outcome_def nested_world_def)


lemma nested_body: "format_body nested_response False = Inl (ustr ''RecursionError'')"
  by (simp add: format_body_def nested_response_def)

lemma single_fields: "raw single_args = False" "count single_args = 1"
  by (simp_all add: single_args_def demo_args_def)

lemma nested_line_error:
  "line_error nested_world single_args k = Some (ustr ''RecursionError'')"
  by (simp add: line_error_def nested_outcome nested_body single_fields)

lemma nested_tally_1:
  "tally nested_world single_args 1 = \<lparr>total = 1, success = 1, failure = 0\<rparr>"
  by (simp add: tally_def nested_outcome upto_1_1)


section \<open>Statistics, limit and exit status\<close>




text \<open>
  Claim C3 says that a run with a count limit that is not interrupted makes exactly that
  many attempts. With a limit of two and an interval of \<open>1e10\<close> seconds nothing
  interrupts the run, the first request brings back a response, and \<open>time.sleep\<close>
  raises an \<open>OverflowError\<close> that nothing catches: the loop is left with a total of one.
\<close>

theorem count_limit_undershoot_counterexample:
  "count long_args = 2
   \<and> (\<forall>k. outcome demo_world long_args k \<noteq> KeyboardInterrupt)
   \<and> (\<forall>k. \<not> sleep_interrupted demo_world k)
   \<and> (\<forall>k. \<not> interrupted_in demo_world long_args k)
   \<and> (\<exists>st. run demo_world long_args = Some (st, Aborted (ustr ''OverflowError'')) \<and>
          stats st = \<lparr>total = 1, success = 1, failure = 0\<rparr>)"
  by (simp add: long_fields long_outcome demo_fields interrupted_in_iff long_run
      state_after_def long_tally_1)

text \<open>
  Claim C3, amended. With a count limit \<open>N > 0\<close> every run ends. If no pass up to the
  \<open>N\<close>-th is cut by the interrupt or left by an exception, the run ends by reaching
  the limit, with a total of exactly \<open>N\<close>. No run ends with a total above \<open>N\<close> or
  with no attempt at all; a run that ends below \<open>N\<close> was interrupted or left by an
  exception in its last pass. A pass is cut by the interrupt when it arrives during the
  request or during the sleep; it is left by an exception when the request raises
  something that is not a \<open>RequestException\<close>, when the formatter or \<open>print\<close>
  raises, or when \<open>time.sleep\<close> refuses the interval.
\<close>

theorem count_limit_exact:
  assumes "0 < count args"
  shows "(\<exists>st how. run w args = Some (st, how))
    \<and> ((\<forall>j. 1 \<le> j \<and> j \<le> count args \<longrightarrow>
            \<not> interrupted_in w args j \<and> \<not> aborted_in w args j) \<longrightarrow>
         (\<exists>st. run w args = Some (st, Finished) \<and> total (stats st) = count args))
    \<and> (\<forall>st how. run w args = Some (st, how) \<longrightarrow>
          1 \<le> total (stats st) \<and> total (stats st) \<le> count args \<and>
          (how = Finished \<longrightarrow> total (stats st) = count args) \<and>
          (total (stats st) < count args \<longrightarrow> how \<noteq> Finished) \<and>
          (how = Interrupted \<longrightarrow> interrupted_in w args (total (stats st))) \<and>
          (\<forall>e. how = Aborted e \<longrightarrow> aborted_in w args (total (stats st))))
    \<and> (\<forall>j. interrupted_in w args j \<longleftrightarrow>
          outcome w args j = KeyboardInterrupt \<or>
          (completes w args j \<and> sleeps_after args j \<and> sleep_error (interval args) = None \<and>
           sleep_interrupted w j))
    \<and> (\<forall>j. aborted_in w args j \<longleftrightarrow>
          (\<exists>e. outcome w args j = OtherException e) \<or>
          line_error w args j \<noteq> None \<or>
          (completes w args j \<and> sleeps_after args j \<and> sleep_error (interval args) \<noteq> None))"
proof (intro conjI allI impI)
  from assms have "count args \<noteq> 0" by simp
  then show "\<exists>st how. run w args = Some (st, how)" by (rule run_total)
next
  assume "\<forall>j. 1 \<le> j \<and> j \<le> count args \<longrightarrow>
      \<not> interrupted_in w args j \<and> \<not> aborted_in w args j"
  then have "run w args = Some (state_after w args (count args), Finished)"
    using assms by (intro run_completes)
  then show "\<exists>st. run w args = Some (st, Finished) \<and> total (stats st) = count args"
    by (simp add: state_after_def)
next
  fix st how
  assume r: "run w args = Some (st, how)"
  note b = run_bounds [OF r assms]
  have last: "pass_stops w args (total (stats st)) = Some how"
    using run_last_stop [OF r] b by simp
  show "1 \<le> total (stats st)" using b by simp
  show "total (stats st) \<le> count args" using b by simp
  {
    assume "how = Finished"
    with b show "total (stats st) = count args" by simp
  }
  {
    assume "total (stats st) < count args"
    with b show "how \<noteq> Finished" by auto
  }
  {
    assume "how = Interrupted"
    with last show "interrupted_in w args (total (stats st))"
      by (simp add: interrupted_in_def)
  }
  {
    fix e assume "how = Aborted e"
    with last show "aborted_in w args (total (stats st))"
      by (simp add: aborted_in_def)
  }
next
  fix j
  show "interrupted_in w args j \<longleftrightarrow>
          outcome w args j = KeyboardInterrupt \<or>
          (completes w args j \<and> sleeps_after args j \<and> sleep_error (interval args) = None \<and>
           sleep_interrupted w j)"
    by (rule interrupted_in_iff)
next
  fix j
  show "aborted_in w args j \<longleftrightarrow>
          (\<exists>e. outcome w args j = OtherException e) \<or>
          line_error w args j \<noteq> None \<or>
          (completes w args j \<and> sleeps_after args j \<and> sleep_error (interval args) \<noteq> None)"
    by (rule aborted_in_iff)
qed

theorem count_limit_exact_witness:
  "0 < count demo_args
   \<and> (\<exists>st. run demo_world demo_args = Some (st, Finished) \<and> total (stats st) = 2)"
  using count_limit_exact [of demo_args demo_world] demo_undisturbed
  by (simp add: demo_fields)






section \<open>Classified attempts\<close>

lemma sleeps_after_iff:
  "sleeps_after args k \<longleftrightarrow> \<not> (count args \<noteq> 0 \<and> count args \<le> k) \<and> fpos (interval args)"
  by (simp add: sleeps_after_def limit_of_def limit_reached_def)









section \<open>Sequence numbers\<close>

text \<open>
  Claim C4. The sequence numbers read off the lines of a run are \<open>1, 2, \<dots>\<close> up to the
  number of lines, in the order of the lines; there is a line for every attempt counted as
  a success or a failure, but for the last one when the formatter or \<open>print\<close> raised.
  Each pass writes the new total first and issues its request next, so the total counts
  the requests issued, and an attempt cut by the interrupt or by an exception of the
  request has been counted in the total already.
\<close>

theorem sequence_numbers_contiguous:
  assumes "run w args = Some (st, how)"
  shows "map (\<lambda>p. seq_no (snd p)) (printed (effects st)) =
           map nat [1..success (stats st) + failure (stats st) -
                       (if 0 < total (stats st) \<and> line_error w args (total (stats st)) \<noteq> None
                        then 1 else 0)]
    \<and> map (\<lambda>p. seq_no (snd p)) (printed (effects st)) =
        map nat [1..int (length (printed (effects st)))]
    \<and> length (issued (effects st)) = nat (total (stats st))
    \<and> effects st = concat (map (pass_effects w args) [1..total (stats st)])
    \<and> (\<forall>k. 1 \<le> k \<and> k \<le> total (stats st) \<longrightarrow>
          (\<exists>rest. pass_effects w args k =
             Wrote ((tally w args (k - 1))\<lparr>total := k\<rparr>) # Issued (the_request args) # rest))
    \<and> (how = Interrupted \<and> outcome w args (total (stats st)) = KeyboardInterrupt \<longrightarrow>
          total (stats st) = success (stats st) + failure (stats st) + 1)
    \<and> (\<forall>e. how = Aborted e \<and> outcome w args (total (stats st)) = OtherException e \<longrightarrow>
          total (stats st) = success (stats st) + failure (stats st) + 1)"
proof -
  from run_shape [OF assms] obtain m
    where st: "st = state_after w args (int m)" and e: "run_ends w args 0 (int m) how"
    by blast
  have stats: "stats st = tally w args (int m)" by (simp add: st state_after_def)
  have tot: "total (stats st) = int m" by (simp add: stats)
  note sum = run_sum [OF e]
  let ?counted = "is_returned (outcome w args (int m)) \<or> is_raised (outcome w args (int m))"
  let ?n = "success (stats st) + failure (stats st) -
      (if 0 < total (stats st) \<and> line_error w args (total (stats st)) \<noteq> None then 1 else 0)"
  have m0: "m = 0 \<Longrightarrow> how = Finished"
    using run_none_made [OF assms] by (simp add: tot)
  have 1: "map (\<lambda>p. seq_no (snd p)) (printed (effects st)) = map nat [1..?n]"
  proof (cases "0 < m \<and> \<not> completes w args (int m)")
    case False
    have all: "\<forall>j. 1 \<le> j \<and> j \<le> int m \<longrightarrow> completes w args j"
    proof (intro allI impI)
      fix j assume j: "1 \<le> j \<and> j \<le> int m"
      show "completes w args j"
      proof (cases "j < int m")
        case True
        with j e show ?thesis by (simp add: run_ends_early_complete)
      next
        case nl: False
        with j have "j = int m" "0 < m" by simp_all
        with False show ?thesis by simp
      qed
    qed
    have c: "0 < m \<Longrightarrow> ?counted \<and> line_error w args (int m) = None"
      using False by (simp add: completes_def)
    have "?n = int m"
    proof (cases "0 < m")
      case True
      with c sum show ?thesis by (simp add: stats)
    next
      case z: False
      with sum show ?thesis by (simp add: stats)
    qed
    moreover have "printed (effects st) = printed (effects (state_after w args (int m)))"
      by (simp add: st)
    ultimately show ?thesis using seq_no_after [OF all] by simp
  next
    case True
    then obtain m' where m': "m = Suc m'" by (cases m) auto
    have eq: "int m = int m' + 1" using m' by simp
    have early: "\<forall>j. 1 \<le> j \<and> j \<le> int m' \<longrightarrow> completes w args j"
      using run_ends_early_complete [OF e] m' by simp
    have "printed (pass_effects w args (int m' + 1)) = []"
      using True by (simp add: printed_pass eq)
    then have p: "printed (effects st) = printed (effects (state_after w args (int m')))"
      unfolding st eq effects_after_Suc printed_append by simp
    have "?n = int m'"
    proof (cases "?counted")
      case c: True
      with True have "line_error w args (int m) \<noteq> None" by (simp add: completes_def)
      with sum c True show ?thesis by (simp add: stats eq)
    next
      case nc: False
      then have "line_error w args (int m) = None"
        using line_error_counted [of w args "int m"] by (cases "line_error w args (int m)") auto
      with sum nc True show ?thesis by (simp add: stats eq)
    qed
    with p show ?thesis using seq_no_after [OF early] by simp
  qed
  have 8: "map (\<lambda>p. seq_no (snd p)) (printed (effects st)) =
        map nat [1..int (length (printed (effects st)))]"
  proof -
    have "length (map (\<lambda>p. seq_no (snd p)) (printed (effects st))) = length (map nat [1..?n])"
      using 1 by simp
    then have "length (printed (effects st)) = nat ?n" by simp
    then show ?thesis using 1 by (cases "0 \<le> ?n") simp_all
  qed
  have 2: "length (issued (effects st)) = nat (total (stats st))"
  proof -
    have "length (issued (effects (state_after w args (int m)))) = m"
      by (simp add: issued_after)
    then show ?thesis by (simp add: st tot [unfolded st])
  qed
  have 3: "effects st = concat (map (pass_effects w args) [1..total (stats st)])"
    by (simp add: st state_after_def)
  have 4: "\<forall>k. 1 \<le> k \<and> k \<le> total (stats st) \<longrightarrow>
          (\<exists>rest. pass_effects w args k =
             Wrote ((tally w args (k - 1))\<lparr>total := k\<rparr>) # Issued (the_request args) # rest)"
    by (simp add: pass_effects_def)
  have 5: "how = Interrupted \<and> outcome w args (total (stats st)) = KeyboardInterrupt \<longrightarrow>
          total (stats st) = success (stats st) + failure (stats st) + 1"
  proof
    assume a: "how = Interrupted \<and> outcome w args (total (stats st)) = KeyboardInterrupt"
    then have "0 < m" using m0 by (cases "m = 0") auto
    with a sum show "total (stats st) = success (stats st) + failure (stats st) + 1"
      by (simp add: stats)
  qed
  have 6: "\<forall>e. how = Aborted e \<and> outcome w args (total (stats st)) = OtherException e \<longrightarrow>
          total (stats st) = success (stats st) + failure (stats st) + 1"
  proof (intro allI impI)
    fix x
    assume a: "how = Aborted x \<and> outcome w args (total (stats st)) = OtherException x"
    then have "0 < m" using m0 by (cases "m = 0") auto
    with a sum show "total (stats st) = success (stats st) + failure (stats st) + 1"
      by (simp add: stats)
  qed
  from 1 8 2 3 4 5 6 show ?thesis by blast
qed

theorem sequence_numbers_contiguous_witness:
  "run demo_world demo_args = Some (state_after demo_world demo_args 2, Finished)
   \<and> map (\<lambda>p. seq_no (snd p)) (printed (effects (state_after demo_world demo_args 2))) = [1, 2]
   \<and> length (issued (effects (state_after demo_world demo_args 2))) = 2"
  using sequence_numbers_contiguous [OF demo_run] demo_run
  by (simp add: state_after_def demo_tally upto_1_2 demo_line_error)

section \<open>Sleeps and the formatter\<close>

lemma slept_pass_iff:
  "slept (pass_effects w args k) =
     (if completes w args k \<and> \<not> (count args \<noteq> 0 \<and> count args \<le> k) \<and> fpos (interval args)
      then [interval args] else [])"
  by (simp add: slept_pass sleeps_after_iff)

lemma pass_ends_with_sleep:
  assumes "completes w args k" and "sleeps_after args k"
  shows "\<exists>pre. pass_effects w args k = pre @ [Sleep (interval args)] \<and> slept pre = []"
proof -
  let ?pre = "[Wrote ((tally w args (k - 1))\<lparr>total := k\<rparr>), Issued (the_request args),
      Wrote (tally w args k)] @ attempt_line w args k"
  have "pass_effects w args k = ?pre @ [Sleep (interval args)]"
    using assms by (simp add: pass_effects_def completes_def)
  moreover have "slept ?pre = []"
    by (simp add: slept_append slept_attempt_line projections_Cons projections_Nil)
  ultimately show ?thesis by blast
qed

lemma fpos_value: "fpos (Float s m e) \<longleftrightarrow> 0 < float_value s m e"
proof -
  have "0 \<le> real m * 2 powr real_of_int e" by simp
  then show ?thesis
    by (cases s) (simp_all add: float_value_def zero_less_mult_iff not_less)
qed

lemma pass_stops_after_sleep:
  assumes "completes w args k" and "sleeps_after args k"
  shows "pass_stops w args k =
     (case sleep_error (interval args) of
        Some e \<Rightarrow> Some (Aborted e)
      | None \<Rightarrow> if sleep_interrupted w k then Some Interrupted else None)"
  using assms(2) by (simp add: pass_stops_completes [OF assms(1)] sleeps_after_def)

text \<open>
  Claim C9. A pass that reaches the exit test calls \<open>time.sleep\<close> exactly when the count
  limit has not just been reached and the interval is positive, and then with the
  configured interval, as the last thing it does; the pass that reaches the limit ends
  without a sleep, and an interval that is not positive gives no sleep at all. A pass
  that is left before the exit test (by the interrupt or by an exception) does not
  sleep. After the call the loop goes on, unless \<open>time.sleep\<close> refuses the interval or
  the interrupt arrives during the sleep.
\<close>

theorem sleep_between_attempts:
  assumes "run w args = Some (st, how)"
  shows "slept (effects st) =
      concat (map (\<lambda>k. if completes w args k \<and>
                           \<not> (count args \<noteq> 0 \<and> count args \<le> k) \<and> fpos (interval args)
                        then [interval args] else []) [1..total (stats st)])
    \<and> (\<forall>k. 1 \<le> k \<and> k \<le> total (stats st) \<and> completes w args k \<longrightarrow>
          (if \<not> (count args \<noteq> 0 \<and> count args \<le> k) \<and> fpos (interval args)
           then (\<exists>pre. pass_effects w args k = pre @ [Sleep (interval args)] \<and> slept pre = [])
             \<and> pass_stops w args k =
                 (case sleep_error (interval args) of
                    Some e \<Rightarrow> Some (Aborted e)
                  | None \<Rightarrow> if sleep_interrupted w k then Some Interrupted else None)
           else slept (pass_effects w args k) = []))
    \<and> (\<forall>k. 1 \<le> k \<and> k \<le> total (stats st) \<and> \<not> completes w args k \<longrightarrow>
          slept (pass_effects w args k) = [] \<and> k = total (stats st) \<and> how \<noteq> Finished)
    \<and> (how = Finished \<and> 0 < total (stats st) \<longrightarrow>
          count args = total (stats st) \<and> slept (pass_effects w args (total (stats st))) = [])
    \<and> (\<not> fpos (interval args) \<longrightarrow> slept (effects st) = [])
    \<and> effects st = concat (map (pass_effects w args) [1..total (stats st)])
    \<and> (\<forall>k. completes w args k \<longleftrightarrow>
          (is_returned (outcome w args k) \<or> is_raised (outcome w args k)) \<and>
          line_error w args k = None)
    \<and> (\<forall>s m e. fpos (Float s m e) \<longleftrightarrow> 0 < float_value s m e)"
proof -
  from run_shape [OF assms] obtain m
    where st: "st = state_after w args (int m)" and e: "run_ends w args 0 (int m) how"
    by blast
  have tot: "total (stats st) = int m" by (simp add: st state_after_def)
  have eff: "effects st = effects (state_after w args (int m))" by (simp add: st)
  have 1: "slept (effects st) =
      concat (map (\<lambda>k. if completes w args k \<and>
                           \<not> (count args \<noteq> 0 \<and> count args \<le> k) \<and> fpos (interval args)
                        then [interval args] else []) [1..total (stats st)])"
    unfolding tot eff slept_after sleeps_after_iff by simp
  have 2: "\<forall>k. 1 \<le> k \<and> k \<le> total (stats st) \<and> completes w args k \<longrightarrow>
          (if \<not> (count args \<noteq> 0 \<and> count args \<le> k) \<and> fpos (interval args)
           then (\<exists>pre. pass_effects w args k = pre @ [Sleep (interval args)] \<and> slept pre = [])
             \<and> pass_stops w args k =
                 (case sleep_error (interval args) of
                    Some e \<Rightarrow> Some (Aborted e)
                  | None \<Rightarrow> if sleep_interrupted w k then Some Interrupted else None)
           else slept (pass_effects w args k) = [])"
  proof (intro allI impI)
    fix k
    assume k: "1 \<le> k \<and> k \<le> total (stats st) \<and> completes w args k"
    show "if \<not> (count args \<noteq> 0 \<and> count args \<le> k) \<and> fpos (interval args)
           then (\<exists>pre. pass_effects w args k = pre @ [Sleep (interval args)] \<and> slept pre = [])
             \<and> pass_stops w args k =
                 (case sleep_error (interval args) of
                    Some e \<Rightarrow> Some (Aborted e)
                  | None \<Rightarrow> if sleep_interrupted w k then Some Interrupted else None)
           else slept (pass_effects w args k) = []"
    proof (cases "sleeps_after args k")
      case True
      with k pass_ends_with_sleep [of w args k] pass_stops_after_sleep [of w args k]
      show ?thesis by (simp add: sleeps_after_iff)
    next
      case False
      with k slept_pass_iff [of w args k] show ?thesis
        by (auto simp: sleeps_after_iff)
    qed
  qed
  have 3: "\<forall>k. 1 \<le> k \<and> k \<le> total (stats st) \<and> \<not> completes w args k \<longrightarrow>
          slept (pass_effects w args k) = [] \<and> k = total (stats st) \<and> how \<noteq> Finished"
  proof (intro allI impI)
    fix k
    assume k: "1 \<le> k \<and> k \<le> total (stats st) \<and> \<not> completes w args k"
    then have s: "slept (pass_effects w args k) = []" by (simp add: slept_pass)
    have nl: "\<not> k < int m"
      using run_ends_early_complete [OF e, of k] k by auto
    with k have km: "k = int m" by (simp add: tot)
    with k have "pass_stops w args (int m) = Some how"
      using run_ends_last [OF e] by simp
    with k km have "how \<noteq> Finished"
      using pass_stops_Finished [of w args "int m"] by auto
    with s km show "slept (pass_effects w args k) = [] \<and> k = total (stats st) \<and> how \<noteq> Finished"
      by (simp add: tot)
  qed
  have 4: "how = Finished \<and> 0 < total (stats st) \<longrightarrow>
          count args = total (stats st) \<and> slept (pass_effects w args (total (stats st))) = []"
  proof
    assume a: "how = Finished \<and> 0 < total (stats st)"
    then have "pass_stops w args (int m) = Some Finished"
      using run_ends_last [OF e] by (simp add: tot)
    from pass_stops_Finished [OF this]
    have lr: "limit_reached (limit_of args) (tally w args (int m))" by simp
    then have "\<not> sleeps_after args (int m)"
      by (simp add: sleeps_after_tally [of args _ w])
    then have s: "slept (pass_effects w args (int m)) = []"
      by (simp add: slept_pass)
    from a obtain m' where m': "m = Suc m'" using tot by (cases m) auto
    with e have "running (limit_of args) (tally w args (int m'))"
      by (simp add: run_ends_def)
    with lr m' have "count args = int m"
      by (auto simp: limit_of_def running_def limit_reached_def split: if_splits)
    with s show "count args = total (stats st) \<and>
        slept (pass_effects w args (total (stats st))) = []"
      by (simp add: tot)
  qed
  have 5: "\<not> fpos (interval args) \<longrightarrow> slept (effects st) = []"
    unfolding 1 by (simp add: concat_eq_Nil_conv)
  have 6: "effects st = concat (map (pass_effects w args) [1..total (stats st)])"
    by (simp add: st state_after_def)
  have 7: "\<forall>k. completes w args k \<longleftrightarrow>
          (is_returned (outcome w args k) \<or> is_raised (outcome w args k)) \<and>
          line_error w args k = None"
    by (simp add: completes_def)
  have 8: "\<forall>s m e. fpos (Float s m e) \<longleftrightarrow> 0 < float_value s m e"
    using fpos_value by blast
  from 1 2 3 4 5 6 7 8 show ?thesis by blast
qed

theorem sleep_between_attempts_witness:
  "run demo_world demo_args = Some (state_after demo_world demo_args 2, Finished)
   \<and> count demo_args = 2 \<and> interval demo_args = Float False 1 (- 1)
   \<and> slept (effects (state_after demo_world demo_args 2)) = [Float False 1 (- 1)]
   \<and> slept (pass_effects demo_world demo_args 2) = []"
  using sleep_between_attempts [OF demo_run] demo_run
  by (simp add: state_after_def demo_tally upto_1_2 demo_completes demo_interval demo_fields)
     (simp add: demo_args_def)

lemma attempt_returned:
  assumes "session_get w (total (stats st) + 1) (request_of args hs v) = Returned r"
  shows "\<exists>st'. (attempt w args hs l v st \<in> {Again st', Break st', Interrupt st'} \<or>
        (\<exists>e. attempt w args hs l v st = Abort e st')) \<and>
      success (stats st') = success (stats st) + 1 \<and> failure (stats st') = failure (stats st) \<and>
      (\<forall>e. format_body r (raw args) = Inl e \<longrightarrow>
         attempt w args hs l v st = Abort e st' \<and> printed (effects st') = printed (effects st))"
proof (cases "format_body r (raw args)")
  case (Inl e)
  with assms show ?thesis
    by (simp add: attempt_def Let_def write_stats_def emit_def printed_append
        projections_Cons projections_Nil)
next
  case (Inr body)
  let ?line = "success_line (total (stats st) + 1) (status_code r)
      (latency (tick_start_at w (total (stats st) + 1)) (tick_end_at w (total (stats st) + 1))) body"
  show ?thesis
  proof (cases "print_error w Stdout ?line")
    case (Some e)
    with assms Inr show ?thesis
      by (simp add: attempt_def Let_def write_stats_def emit_def print_line_def)
  next
    case None
    with assms Inr show ?thesis
      by (cases "sleep_error (interval args)")
         (simp_all add: attempt_def Let_def write_stats_def emit_def print_line_def pause_def)
  qed
qed

lemma nested_attempt:
  "attempt nested_world single_args (flatten_headers (header single_args))
      (limit_of single_args) (\<not> insecure single_args) initial =
   Abort (ustr ''RecursionError'')
     \<lparr>stats = \<lparr>total = 1, success = 1, failure = 0\<rparr>,
      effects = [Wrote \<lparr>total = 1, success = 0, failure = 0\<rparr>,
                 Issued (the_request single_args),
                 Wrote \<lparr>total = 1, success = 1, failure = 0\<rparr>]\<rparr>"
proof -
  have "pass_stops nested_world single_args (0 + 1) = Some (Aborted (ustr ''RecursionError''))"
    by (simp add: pass_stops_line_error nested_line_error)
  with attempt_step [of 0 nested_world single_args]
  have "attempt nested_world single_args (flatten_headers (header single_args))
      (limit_of single_args) (\<not> insecure single_args) initial =
    Abort (ustr ''RecursionError'') (state_after nested_world single_args 1)"
    by (simp add: state_after_0)
  then show ?thesis
    by (simp add: state_after_1 nested_tally_1 tally_0 pass_effects_def nested_outcome
        nested_line_error)
qed

text \<open>
  Claim C7 says that, for every body, a parse that fails is recovered inside the
  formatter. The formatter catches a \<open>ValueError\<close> only: on a body nested too deeply
  \<open>response.json()\<close> raises a \<open>RecursionError\<close>, the formatter returns nothing, and
  the pass is left by that exception, the attempt counted and no line printed.
\<close>

theorem format_body_unrecovered_counterexample:
  "json nested_response = OtherError (ustr ''RecursionError'')
   \<and> format_body nested_response False = Inl (ustr ''RecursionError'')
   \<and> (\<exists>st. attempt nested_world single_args (flatten_headers (header single_args))
             (limit_of single_args) (\<not> insecure single_args) initial =
           Abort (ustr ''RecursionError'') st
         \<and> stats st = \<lparr>total = 1, success = 1, failure = 0\<rparr> \<and> printed (effects st) = [])"
  by (simp add: nested_body nested_attempt projections_Cons projections_Nil)
     (simp add: nested_response_def)

text \<open>
  Claim C7, amended. In raw mode the formatter gives the body without its leading and
  trailing white space, or the empty-body placeholder when nothing is left. In parsed mode
  a dict or a list is serialised compactly with its members in order, any other decoded
  value is rendered by \<open>str\<close>, and a body on which \<open>response.json()\<close> raises a
  \<open>ValueError\<close> gives the trimmed text, or the non-JSON placeholder when nothing is
  left; any other exception of \<open>response.json()\<close> goes through the formatter. An
  attempt whose response came back counts as a success and not as a failure, whatever the
  formatter does; when the formatter lets an exception through, the pass is left by it
  and prints nothing.
\<close>

theorem format_body_modes:
  "format_body r True =
     Inr (if strip (text' r) = [] then ustr ''<empty body>'' else strip (text' r))
   \<and> (json r = ValueError \<longrightarrow>
        format_body r False =
          Inr (if strip (text' r) = [] then ustr ''<non-JSON body>'' else strip (text' r)))
   \<and> (json r = Decoded (JDict kvs) \<longrightarrow>
        (\<exists>out. format_body r False = Inr out
           \<and> out = [123] @ join [44] (map (\<lambda>kv. encode_str (fst kv) @ [58] @ dumps (snd kv)) kvs)
                     @ [125]
           \<and> (\<forall>c \<in> set out. 32 \<le> c)))
   \<and> (json r = Decoded (JList vs) \<longrightarrow>
        (\<exists>out. format_body r False = Inr out
           \<and> out = [91] @ join [44] (map dumps vs) @ [93]
           \<and> (\<forall>c \<in> set out. 32 \<le> c)))
   \<and> (json r = Decoded (Atom a) \<longrightarrow> format_body r False = Inr (str_scalar a))
   \<and> (json r = OtherError e \<longrightarrow> format_body r False = Inl e)
   \<and> (\<exists>pre suf. text' r = pre @ strip (text' r) @ suf \<and>
         (\<forall>c \<in> set pre. isspace c) \<and> (\<forall>c \<in> set suf. isspace c))
   \<and> (strip (text' r) \<noteq> [] \<longrightarrow>
         \<not> isspace (hd (strip (text' r))) \<and> \<not> isspace (last (strip (text' r))))
   \<and> (session_get w (total (stats st) + 1) (request_of args hs v) = Returned r \<longrightarrow>
        (\<exists>st'. (attempt w args hs l v st \<in> {Again st', Break st', Interrupt st'} \<or>
                (\<exists>x. attempt w args hs l v st = Abort x st')) \<and>
           success (stats st') = success (stats st) + 1 \<and>
           failure (stats st') = failure (stats st) \<and>
           (\<forall>x. format_body r (raw args) = Inl x \<longrightarrow>
              attempt w args hs l v st = Abort x st' \<and>
              printed (effects st') = printed (effects st))))
   \<and> format_body \<lparr>status_code = 200, text' = ustr ''not json'', json = ValueError\<rparr> False
       = Inr (ustr ''not json'')
   \<and> format_body \<lparr>status_code = 200, text' = [], json = ValueError\<rparr> True
       = Inr (ustr ''<empty body>'')"
proof -
  have d: "json r = Decoded (JDict kvs) \<Longrightarrow>
      \<exists>out. format_body r False = Inr out
           \<and> out = [123] @ join [44] (map (\<lambda>kv. encode_str (fst kv) @ [58] @ dumps (snd kv)) kvs)
                     @ [125]
           \<and> (\<forall>c \<in> set out. 32 \<le> c)"
    using dumps_ge [of _ "JDict kvs"] by (simp add: format_body_json)
  have l: "json r = Decoded (JList vs) \<Longrightarrow>
      \<exists>out. format_body r False = Inr out
           \<and> out = [91] @ join [44] (map dumps vs) @ [93]
           \<and> (\<forall>c \<in> set out. 32 \<le> c)"
    using dumps_ge [of _ "JList vs"] by (simp add: format_body_json)
  have a: "session_get w (total (stats st) + 1) (request_of args hs v) = Returned r \<Longrightarrow>
        (\<exists>st'. (attempt w args hs l v st \<in> {Again st', Break st', Interrupt st'} \<or>
                (\<exists>x. attempt w args hs l v st = Abort x st')) \<and>
           success (stats st') = success (stats st) + 1 \<and>
           failure (stats st') = failure (stats st) \<and>
           (\<forall>x. format_body r (raw args) = Inl x \<longrightarrow>
              attempt w args hs l v st = Abort x st' \<and>
              printed (effects st') = printed (effects st)))"
    by (rule attempt_returned)
  have e1: "format_body \<lparr>status_code = 200, text' = ustr ''not json'', json = ValueError\<rparr> False
       = Inr (ustr ''not json'')"
    by (simp add: format_body_def or_else_def strip_def isspace_def ustr_def)
  have e2: "format_body \<lparr>status_code = 200, text' = [], json = ValueError\<rparr> True
      = Inr (ustr ''<empty body>'')"
    by (simp add: format_body_def or_else_def strip_def)
  have at: "json r = Decoded (Atom a) \<Longrightarrow> format_body r False = Inr (str_scalar a)"
    by (simp add: format_body_json)
  show ?thesis
    using format_body_raw [of r] format_body_not_json [of r] format_body_error [of r e]
      strip_split [of "text' r"] strip_hd [of "text' r"] strip_last [of "text' r"]
      d l a e1 e2 at
    by blast
qed

theorem format_body_modes_witness:
  "format_body demo_response True = Inr (ustr ''[1, 2]'')
   \<and> json demo_response = Decoded (JList [Atom (PyInt 1), Atom (PyInt 2)])
   \<and> format_body demo_response False = Inr (ustr ''[1,2]'')
   \<and> strip (text' demo_response) \<noteq> []
   \<and> \<not> isspace (hd (strip (text' demo_response)))
   \<and> session_get demo_world (total (stats initial) + 1) (request_of demo_args Map.empty True)
       = Returned demo_response"
  using format_body_modes [of demo_response _ "[Atom (PyInt 1), Atom (PyInt 2)]" _ _
      demo_world initial demo_args Map.empty True]
  by (simp add: demo_response_def demo_world_def initial_def strip_def isspace_def ustr_def
      str_int_def digits.simps)

end
